theory Spec2Isabelle
  imports Main "HOL-Library.Sublist" "HOL-Library.AList" "HOL-Library.Word"
begin

section \<open>Command execution tools of \<^verbatim>\<open>internal/tools/shell.go\<close>\<close>

text \<open>
  A Go \<^verbatim>\<open>string\<close> and a \<^verbatim>\<open>[]byte\<close> are byte sequences; both are modelled as
  \<^typ>\<open>string\<close> (a list of 8-bit characters), so \<^const>\<open>length\<close> is Go's \<^verbatim>\<open>len\<close>.
  The functions of Go's standard library that the file calls (\<^verbatim>\<open>strings\<close>,
  \<^verbatim>\<open>regexp\<close>, \<^verbatim>\<open>os\<close>, \<^verbatim>\<open>os/exec\<close>) are modelled first, then the file itself,
  function by function and under the names it uses.
\<close>

subsection \<open>Package \<^verbatim>\<open>strings\<close>\<close>

text \<open>\<^verbatim>\<open>strings.Join(elems, sep)\<close>.\<close>

fun Join :: "string list \<Rightarrow> string \<Rightarrow> string" where
  "Join [] sep = []"
| "Join [a] sep = a"
| "Join (a # b # rest) sep = a @ sep @ Join (b # rest) sep"

text \<open>
  \<^verbatim>\<open>strings.Split(s, sep)\<close> and \<^verbatim>\<open>strings.SplitN(s, sep, 2)\<close> for a separator of one byte.
  \<^verbatim>\<open>Split\<close> of the empty string is the list holding the empty string; \<^verbatim>\<open>SplitN\<close> cuts at
  the first separator only and returns one piece when there is none.
\<close>

fun Split :: "string \<Rightarrow> char \<Rightarrow> string list" where
  "Split [] sep = [[]]"
| "Split (c # cs) sep =
     (if c = sep then [] # Split cs sep
      else (case Split cs sep of [] \<Rightarrow> [[c]] | piece # pieces \<Rightarrow> (c # piece) # pieces))"

definition SplitN2 :: "string \<Rightarrow> char \<Rightarrow> string list" where
  "SplitN2 s sep =
     (if sep \<in> set s then [takeWhile (\<lambda>c. c \<noteq> sep) s, tl (dropWhile (\<lambda>c. c \<noteq> sep) s)]
      else [s])"

text \<open>
  \<^verbatim>\<open>strings.TrimSpace\<close> removes leading and trailing white space as \<^verbatim>\<open>unicode.IsSpace\<close>
  defines it: six ASCII characters, and the code points U+0085, U+00A0, U+1680,
  U+2000 to U+200A, U+2028, U+2029, U+202F, U+205F and U+3000, which a Go string holds in
  UTF-8. A UTF-8 sequence is never the prefix of another one, so at most one entry of the
  table matches at the start of a string; from the end, Go decodes the last rune, which is
  a white-space rune exactly when the string ends with one of these byte sequences.
\<close>

definition ascii_space :: string where
  "ascii_space = [CHR 0x09, CHR 0x0A, CHR 0x0B, CHR 0x0C, CHR 0x0D, CHR 0x20]"

definition space_runes :: "string list" where
  "space_runes = map (\<lambda>c. [c]) ascii_space @
     [[CHR 0xC2, CHR 0x85], [CHR 0xC2, CHR 0xA0], [CHR 0xE1, CHR 0x9A, CHR 0x80],
      [CHR 0xE2, CHR 0x80, CHR 0x80], [CHR 0xE2, CHR 0x80, CHR 0x81],
      [CHR 0xE2, CHR 0x80, CHR 0x82], [CHR 0xE2, CHR 0x80, CHR 0x83],
      [CHR 0xE2, CHR 0x80, CHR 0x84], [CHR 0xE2, CHR 0x80, CHR 0x85],
      [CHR 0xE2, CHR 0x80, CHR 0x86], [CHR 0xE2, CHR 0x80, CHR 0x87],
      [CHR 0xE2, CHR 0x80, CHR 0x88], [CHR 0xE2, CHR 0x80, CHR 0x89],
      [CHR 0xE2, CHR 0x80, CHR 0x8A], [CHR 0xE2, CHR 0x80, CHR 0xA8],
      [CHR 0xE2, CHR 0x80, CHR 0xA9], [CHR 0xE2, CHR 0x80, CHR 0xAF],
      [CHR 0xE2, CHR 0x81, CHR 0x9F], [CHR 0xE3, CHR 0x80, CHR 0x80]]"

fun leading_rune :: "string list \<Rightarrow> string \<Rightarrow> nat" where
  "leading_rune [] s = 0"
| "leading_rune (e # es) s = (if e \<noteq> [] \<and> prefix e s then length e else leading_rune es s)"

function trim_leading :: "string list \<Rightarrow> string \<Rightarrow> string" where
  "trim_leading runes s =
     (case leading_rune runes s of 0 \<Rightarrow> s | Suc n \<Rightarrow> trim_leading runes (drop (Suc n) s))"
  by pat_completeness auto

lemma leading_rune_le: "leading_rune runes s \<le> length s"
  by (induction runes) (auto simp: prefix_length_le)

termination trim_leading
proof (relation "measure (\<lambda>(runes, s). length s)")
  show "wf (measure (\<lambda>(runes, s). length s))" by simp
next
  fix runes :: "string list" and s :: string and n :: nat
  assume "leading_rune runes s = Suc n"
  with leading_rune_le [of runes s] have "Suc n \<le> length s" by simp
  then show "((runes, drop (Suc n) s), (runes, s)) \<in> measure (\<lambda>(runes, s). length s)" by simp
qed

definition TrimSpace :: "string \<Rightarrow> string" where
  "TrimSpace s = rev (trim_leading (map rev space_runes) (rev (trim_leading space_runes s)))"

text \<open>\<^verbatim>\<open>strings.HasPrefix\<close> and \<^verbatim>\<open>strings.Contains\<close>.\<close>

definition HasPrefix :: "string \<Rightarrow> string \<Rightarrow> bool" where
  "HasPrefix s pre = prefix pre s"

fun Contains :: "string \<Rightarrow> string \<Rightarrow> bool" where
  "Contains [] substr = (substr = [])"
| "Contains (c # cs) substr = (prefix substr (c # cs) \<or> Contains cs substr)"

text \<open>
  \<^verbatim>\<open>strings.ToUpper\<close> and \<^verbatim>\<open>strings.ToLower\<close> on the ASCII letters. Go also maps the
  letters beyond ASCII through the Unicode tables; those bytes are left unchanged here, and
  no property below depends on how a name is classified, only on the classification's
  result.
\<close>

definition lower_chars :: string where
  "lower_chars = ''abcdefghijklmnopqrstuvwxyz''"

definition upper_chars :: string where
  "upper_chars = ''ABCDEFGHIJKLMNOPQRSTUVWXYZ''"

definition ToUpper :: "string \<Rightarrow> string" where
  "ToUpper s = map (\<lambda>c. case map_of (zip lower_chars upper_chars) c of None \<Rightarrow> c | Some u \<Rightarrow> u) s"

definition ToLower :: "string \<Rightarrow> string" where
  "ToLower s = map (\<lambda>c. case map_of (zip upper_chars lower_chars) c of None \<Rightarrow> c | Some l \<Rightarrow> l) s"

subsection \<open>Package \<^verbatim>\<open>regexp\<close>\<close>

text \<open>
  The syntax tree of a pattern, with the constructors of Go's \<^verbatim>\<open>regexp/syntax\<close> that the
  deny patterns need, and a matcher that follows the tree. A cursor is a position in the
  text: the bytes before it, nearest first, and the bytes after it. \<open>ends r p\<close> lists the
  positions where a match of \<open>r\<close> that starts at \<open>p\<close> can end. An iteration of a repetition
  that consumes nothing reaches no new position, so only consuming iterations are
  followed, and there are at most as many of them as bytes remain.

  The patterns hold ASCII only, and an ASCII byte is never part of a longer UTF-8
  sequence, so matching bytes and matching runes agree on them: \<^verbatim>\<open>.\<close> is any byte but the
  line feed, \<^verbatim>\<open>\s\<close> is \<^verbatim>\<open>[\t\n\f\r ]\<close>, \<^verbatim>\<open>\b\<close> is the ASCII word boundary and \<^verbatim>\<open>$\<close>, without
  the multi-line flag, is the end of the text.
\<close>

type_synonym cursor = "string \<times> string"

datatype regex =
    EmptyMatch
  | Literal char
  | CharClass string
  | AnyCharNotNL
  | EndText
  | WordBoundary
  | Capture regex
  | Star regex
  | Plus regex
  | Concat regex regex
  | Alternate regex regex

definition is_word_char :: "char \<Rightarrow> bool" where
  "is_word_char c =
     (c \<in> set ''0123456789ABCDEFGHIJKLMNOPQRSTUVWXYZ_abcdefghijklmnopqrstuvwxyz'')"

fun starts_with_word_char :: "string \<Rightarrow> bool" where
  "starts_with_word_char [] = False"
| "starts_with_word_char (c # cs) = is_word_char c"

fun at_word_boundary :: "cursor \<Rightarrow> bool" where
  "at_word_boundary (prev, after) =
     (starts_with_word_char prev \<noteq> starts_with_word_char after)"

fun step_char :: "(char \<Rightarrow> bool) \<Rightarrow> cursor \<Rightarrow> cursor list" where
  "step_char P (prev, []) = []"
| "step_char P (prev, c # cs) = (if P c then [(c # prev, cs)] else [])"

fun repeat_from :: "(cursor \<Rightarrow> cursor list) \<Rightarrow> nat \<Rightarrow> cursor \<Rightarrow> cursor list" where
  "repeat_from f 0 p = [p]"
| "repeat_from f (Suc n) p =
     p # concat (map (repeat_from f n) (filter (\<lambda>q. length (snd q) < length (snd p)) (f p)))"

primrec ends :: "regex \<Rightarrow> cursor \<Rightarrow> cursor list" where
  "ends EmptyMatch p = [p]"
| "ends (Literal c) p = step_char (\<lambda>x. x = c) p"
| "ends (CharClass cs) p = step_char (\<lambda>x. x \<in> set cs) p"
| "ends AnyCharNotNL p = step_char (\<lambda>x. x \<noteq> CHR 0x0A) p"
| "ends EndText p = (if snd p = [] then [p] else [])"
| "ends WordBoundary p = (if at_word_boundary p then [p] else [])"
| "ends (Capture r) p = ends r p"
| "ends (Star r) p = repeat_from (ends r) (length (snd p)) p"
| "ends (Plus r) p = concat (map (\<lambda>q. repeat_from (ends r) (length (snd q)) q) (ends r p))"
| "ends (Concat r s) p = concat (map (ends s) (ends r p))"
| "ends (Alternate r s) p = ends r p @ ends s p"

text \<open>\<^verbatim>\<open>(*Regexp).MatchString\<close>: is there a match anywhere in the text.\<close>

fun search :: "regex \<Rightarrow> cursor \<Rightarrow> bool" where
  "search re (prev, []) = (ends re (prev, []) \<noteq> [])"
| "search re (prev, c # cs) = (ends re (prev, c # cs) \<noteq> [] \<or> search re (c # prev, cs))"

definition MatchString :: "regex \<Rightarrow> string \<Rightarrow> bool" where
  "MatchString re s = search re ([], s)"

text \<open>A literal string, a concatenation and an alternation of several patterns.\<close>

definition lits :: "string \<Rightarrow> regex" where
  "lits w = foldr (\<lambda>c r. Concat (Literal c) r) w EmptyMatch"

definition cat :: "regex list \<Rightarrow> regex" where
  "cat rs = foldr Concat rs EmptyMatch"

definition alts :: "regex \<Rightarrow> regex list \<Rightarrow> regex" where
  "alts r rs = foldl Alternate r rs"

definition perl_space_chars :: string where
  "perl_space_chars = [CHR 0x09, CHR 0x0A, CHR 0x0C, CHR 0x0D, CHR 0x20]"

definition perl_space :: regex where
  "perl_space = CharClass perl_space_chars"

subsection \<open>Safety: the deny list\<close>

text \<open>
  \<^verbatim>\<open>defaultDenyPatterns\<close>. Each entry pairs the pattern's source text, which
  \<^verbatim>\<open>re.String()\<close> returns, with its syntax tree. The source texts are
  \<^item> \<^verbatim>\<open>\brm\s+-rf\s+/\s*$\<close>
  \<^item> \<^verbatim>\<open>\bmkfs\b\<close>
  \<^item> \<^verbatim>\<open>\bdd\s+.*of=/dev/\<close>
  \<^item> \<^verbatim>\<open>>\s*/dev/sd[a-z]\<close>
  \<^item> \<^verbatim>\<open>\b:(){ :|:& };:\<close>
  \<^item> \<^verbatim>\<open>\bshutdown\b\<close>
  \<^item> \<^verbatim>\<open>\breboot\b\<close>
  \<^item> \<^verbatim>\<open>\bsystemctl\s+(start|stop|disable|enable|mask)\b\<close>

  and \<open>bs\<close> is the backslash. In the fifth pattern nothing is escaped: \<^verbatim>\<open>()\<close> is an empty
  group, \<^verbatim>\<open>{\<close> and \<^verbatim>\<open>}\<close> do not form a repetition count and stand for themselves, and
  \<^verbatim>\<open>|\<close> is the alternation, which binds weakest. The pattern is therefore the alternation of
  \<^verbatim>\<open>\b:(){ :\<close> and \<^verbatim>\<open>:& };:\<close>.
\<close>

definition bs :: char where
  "bs = CHR 0x5C"

definition re_rm :: regex where
  "re_rm = cat [WordBoundary, lits ''rm'', Plus perl_space, lits ''-rf'', Plus perl_space,
                lits ''/'', Star perl_space, EndText]"

definition re_mkfs :: regex where
  "re_mkfs = cat [WordBoundary, lits ''mkfs'', WordBoundary]"

definition re_dd :: regex where
  "re_dd = cat [WordBoundary, lits ''dd'', Plus perl_space, Star AnyCharNotNL, lits ''of=/dev/'']"

definition re_redirect :: regex where
  "re_redirect = cat [lits ''>'', Star perl_space, lits ''/dev/sd'', CharClass lower_chars]"

definition re_forkbomb :: regex where
  "re_forkbomb =
     Alternate (cat [WordBoundary, lits '':'', Capture EmptyMatch, lits ''{ :''])
               (lits '':& };:'')"

definition re_shutdown :: regex where
  "re_shutdown = cat [WordBoundary, lits ''shutdown'', WordBoundary]"

definition re_reboot :: regex where
  "re_reboot = cat [WordBoundary, lits ''reboot'', WordBoundary]"

definition service_verbs :: "string list" where
  "service_verbs = [''start'', ''stop'', ''disable'', ''enable'', ''mask'']"

definition re_systemctl :: regex where
  "re_systemctl =
     cat [WordBoundary, lits ''systemctl'', Plus perl_space,
          Capture (alts (lits ''start'')
                     [lits ''stop'', lits ''disable'', lits ''enable'', lits ''mask'']),
          WordBoundary]"

definition defaultDenyPatterns :: "(string \<times> regex) list" where
  "defaultDenyPatterns =
    [(bs # ''brm'' @ bs # ''s+-rf'' @ bs # ''s+/'' @ bs # ''s*$'', re_rm),
     (bs # ''bmkfs'' @ bs # ''b'', re_mkfs),
     (bs # ''bdd'' @ bs # ''s+.*of=/dev/'', re_dd),
     (''>'' @ bs # ''s*/dev/sd[a-z]'', re_redirect),
     (bs # ''b:(){ :|:& };:'', re_forkbomb),
     (bs # ''bshutdown'' @ bs # ''b'', re_shutdown),
     (bs # ''breboot'' @ bs # ''b'', re_reboot),
     (bs # ''bsystemctl'' @ bs # ''s+(start|stop|disable|enable|mask)'' @ bs # ''b'',
      re_systemctl)]"

text \<open>\<^verbatim>\<open>isDenied\<close>: the first pattern of the list that matches, if any.\<close>

fun isDenied_loop :: "(string \<times> regex) list \<Rightarrow> string \<Rightarrow> bool \<times> string" where
  "isDenied_loop [] fullCmd = (False, [])"
| "isDenied_loop ((src, re) # rest) fullCmd =
     (if MatchString re fullCmd then (True, src) else isDenied_loop rest fullCmd)"

definition isDenied :: "string \<Rightarrow> bool \<times> string" where
  "isDenied fullCmd = isDenied_loop defaultDenyPatterns fullCmd"

subsection \<open>Constants\<close>

definition defaultTimeoutMs :: "64 word" where
  "defaultTimeoutMs = 30000"

definition maxOutputBytes :: nat where
  "maxOutputBytes = 1 * 1024 * 1024"

subsection \<open>Output cap and redaction\<close>

text \<open>
  \<^verbatim>\<open>capOutput\<close>: \<^verbatim>\<open>data[:maxOutputBytes]\<close> is only evaluated when the slice is long enough,
  so \<^const>\<open>take\<close> never meets a short list in the first branch.
\<close>

definition capOutput :: "string \<Rightarrow> string \<times> bool" where
  "capOutput data =
     (if length data > maxOutputBytes then (take maxOutputBytes data, True)
      else (data, False))"

text \<open>
  \<^verbatim>\<open>redactValue\<close>: \<^verbatim>\<open>val[:2] + strings.Repeat("*", len(val)-4) + val[len(val)-2:]\<close>; the
  subtractions are on lengths above 4, where natural-number subtraction is exact.
\<close>

definition redactValue :: "string \<Rightarrow> string" where
  "redactValue val =
     (if length val \<le> 4 then ''****''
      else take 2 val @ replicate (length val - 4) (CHR ''*'') @ drop (length val - 2) val)"

text \<open>
  \<^verbatim>\<open>isSensitiveEnvKey\<close>: the keys of the map \<^verbatim>\<open>sensitiveEnvKeys\<close> (all mapped to
  \<^verbatim>\<open>true\<close>), then the substring patterns.
\<close>

definition sensitiveEnvKeys :: "string list" where
  "sensitiveEnvKeys =
    [''AWS_SECRET_ACCESS_KEY'', ''AWS_SESSION_TOKEN'', ''GITHUB_TOKEN'', ''GH_TOKEN'',
     ''OPENAI_API_KEY'', ''ANTHROPIC_API_KEY'', ''DATABASE_URL'', ''DB_PASSWORD'',
     ''SECRET_KEY'', ''PRIVATE_KEY'', ''API_KEY'', ''API_SECRET'', ''PASSWORD'', ''TOKEN'',
     ''STRIPE_SECRET_KEY'', ''SENDGRID_API_KEY'']"

definition sensitivePatterns :: "string list" where
  "sensitivePatterns =
    [''SECRET'', ''PASSWORD'', ''PASSWD'', ''TOKEN'', ''API_KEY'', ''APIKEY'', ''PRIVATE_KEY'',
     ''CREDENTIAL'', ''AUTH'']"

definition isSensitiveEnvKey :: "string \<Rightarrow> bool" where
  "isSensitiveEnvKey key =
     (let upper = ToUpper key in
      if upper \<in> set sensitiveEnvKeys then True
      else list_ex (\<lambda>pat. Contains upper pat) sensitivePatterns)"

subsection \<open>The host: environment table, file system, search path, processes\<close>

text \<open>
  What the tools ask of the operating system is a parameter of the model.
  \<^item> \<open>EnvTable\<close> is the process environment, one pair for each variable, in the order
    \<^verbatim>\<open>os.Environ\<close> lists them. \<^verbatim>\<open>os.Environ\<close> returns the entries as \<^verbatim>\<open>key=value\<close> and
    \<^verbatim>\<open>os.LookupEnv\<close> reads one variable.
  \<^item> \<open>AbsPath\<close> is \<^verbatim>\<open>filepath.Abs\<close> (\<open>None\<close>: it failed), \<open>IsDir\<close> says that \<^verbatim>\<open>os.Stat\<close>
    succeeded on a directory, \<open>LookPath\<close> is \<^verbatim>\<open>exec.LookPath\<close> and \<open>GOOS\<close> is
    \<^verbatim>\<open>runtime.GOOS\<close>.
  \<^item> \<open>RunCmd\<close> is \<^verbatim>\<open>cmd.Run()\<close> under its context: for a command it tells whether the
    context's error afterwards is \<^verbatim>\<open>context.DeadlineExceeded\<close>, the error \<^verbatim>\<open>Run\<close> returned
    (none, an \<^verbatim>\<open>*exec.ExitError\<close> with its exit code, or another error), the bytes the two
    buffers captured and the elapsed milliseconds.
\<close>

record exec_Cmd =
  CmdName :: string
  CmdArgs :: "string list"
  CmdDir :: string
  CmdEnv :: "string list option"
  CmdTimeout :: "64 word"

datatype run_error = ExitError int | OtherError string

record run_result =
  DeadlineExceeded :: bool
  RunErr :: "run_error option"
  StdoutBytes :: string
  StderrBytes :: string
  ElapsedMs :: int

record host =
  EnvTable :: "(string \<times> string) list"
  AbsPath :: "string \<Rightarrow> string option"
  IsDir :: "string \<Rightarrow> bool"
  LookPath :: "string \<Rightarrow> string option"
  GOOS :: string
  RunCmd :: "exec_Cmd \<Rightarrow> run_result"

definition env_line :: "string \<times> string \<Rightarrow> string" where
  "env_line kv = fst kv @ ''='' @ snd kv"

definition os_Environ :: "host \<Rightarrow> string list" where
  "os_Environ h = map env_line (EnvTable h)"

definition os_LookupEnv :: "host \<Rightarrow> string \<Rightarrow> string option" where
  "os_LookupEnv h key = map_of (EnvTable h) key"

text \<open>
  \<^verbatim>\<open>os.Setenv\<close>, as on Unix: it refuses an empty key, a key holding \<^verbatim>\<open>=\<close> or a NUL byte and
  a value holding a NUL byte; otherwise it replaces the variable's entry in place, or adds
  one at the end.
\<close>

definition os_Setenv :: "host \<Rightarrow> string \<Rightarrow> string \<Rightarrow> host option" where
  "os_Setenv h key val =
     (if key = [] \<or> CHR ''='' \<in> set key \<or> CHR 0x00 \<in> set key \<or> CHR 0x00 \<in> set val then None
      else Some (h\<lparr>EnvTable := AList.update key val (EnvTable h)\<rparr>))"

text \<open>
  The environment of a started process, as \<^verbatim>\<open>os/exec\<close> (Go 1.20) computes it in
  \<^verbatim>\<open>(*Cmd).environ\<close> before \<^verbatim>\<open>Start\<close> creates the process.
  \<^item> A command whose \<^verbatim>\<open>Env\<close> is \<^verbatim>\<open>nil\<close> gets the entries of \<^verbatim>\<open>os.Environ()\<close>. If its \<^verbatim>\<open>Dir\<close>
    is set as well, and the platform is neither Windows nor Plan 9, the entry \<^verbatim>\<open>PWD=\<close> with
    \<^verbatim>\<open>filepath.Abs(Dir)\<close> is added at the end; a failure of \<^verbatim>\<open>filepath.Abs\<close> is an error.
  \<^item> \<^verbatim>\<open>dedupEnvCase\<close> walks the entries from the last to the first. An entry holding a NUL
    byte is dropped and is an error, except on Plan 9. The key of an entry is its text
    before the first \<^verbatim>\<open>=\<close>, or before the second one when the entry starts with \<^verbatim>\<open>=\<close>, in
    lower case on Windows; an entry whose key was seen already is dropped. An entry
    without \<^verbatim>\<open>=\<close> is kept unless it is empty. The entries kept are returned in their
    first order.
  \<^item> \<^verbatim>\<open>addCriticalEnv\<close> adds \<^verbatim>\<open>SYSTEMROOT\<close> on Windows when no entry names it.
  \<^item> \<^verbatim>\<open>Start\<close> returns the error, if there is one, and no process is created:
    \<open>child_environ\<close> is \<open>None\<close> then, and otherwise the list the process is started with.

  \<open>Index s c\<close> is \<^verbatim>\<open>strings.Index\<close> for a separator of one byte (\<open>None\<close> for \<open>-1\<close>),
  \<open>Cut_before\<close> the first result of \<^verbatim>\<open>strings.Cut\<close> when the separator is found, \<open>EqualFold\<close>
  is \<^verbatim>\<open>strings.EqualFold\<close> on the ASCII letters and \<open>os_Getenv\<close> is \<^verbatim>\<open>os.Getenv\<close>.
\<close>

fun Index :: "string \<Rightarrow> char \<Rightarrow> nat option" where
  "Index [] c = None"
| "Index (x # xs) c = (if x = c then Some 0 else map_option Suc (Index xs c))"

definition Cut_before :: "string \<Rightarrow> char \<Rightarrow> string option" where
  "Cut_before s c = (case Index s c of None \<Rightarrow> None | Some i \<Rightarrow> Some (take i s))"

definition EqualFold :: "string \<Rightarrow> string \<Rightarrow> bool" where
  "EqualFold s t = (ToLower s = ToLower t)"

definition os_Getenv :: "host \<Rightarrow> string \<Rightarrow> string" where
  "os_Getenv h key = (case os_LookupEnv h key of None \<Rightarrow> [] | Some v \<Rightarrow> v)"

definition dedup_key :: "bool \<Rightarrow> string \<Rightarrow> string option" where
  "dedup_key caseInsensitive kv =
     (case Index kv (CHR ''='') of
        None \<Rightarrow> None
      | Some i0 \<Rightarrow>
          (let i = (if i0 = 0
                    then (case Index (tl kv) (CHR ''='') of None \<Rightarrow> 0 | Some j \<Rightarrow> j + 1)
                    else i0);
               k = take i kv
           in Some (if caseInsensitive then ToLower k else k)))"

text \<open>
  The loop of \<^verbatim>\<open>dedupEnvCase\<close> over the entries from the last one on, with its variables
  \<^verbatim>\<open>out\<close>, \<^verbatim>\<open>saw\<close> (the keys set to true) and \<^verbatim>\<open>err\<close> (is it set).
\<close>

fun dedup_loop ::
    "bool \<Rightarrow> bool \<Rightarrow> string list \<Rightarrow> string list \<times> string list \<times> bool
       \<Rightarrow> string list \<times> string list \<times> bool" where
  "dedup_loop caseInsensitive nulOK [] state = state"
| "dedup_loop caseInsensitive nulOK (kv # rest) (out, saw, err) =
     (if \<not> nulOK \<and> CHR 0x00 \<in> set kv then dedup_loop caseInsensitive nulOK rest (out, saw, True)
      else
        (case dedup_key caseInsensitive kv of
           None \<Rightarrow>
             dedup_loop caseInsensitive nulOK rest
               (if kv \<noteq> [] then out @ [kv] else out, saw, err)
         | Some k \<Rightarrow>
             if k \<in> set saw then dedup_loop caseInsensitive nulOK rest (out, saw, err)
             else dedup_loop caseInsensitive nulOK rest (out @ [kv], k # saw, err)))"

definition dedupEnvCase :: "bool \<Rightarrow> bool \<Rightarrow> string list \<Rightarrow> string list \<times> bool" where
  "dedupEnvCase caseInsensitive nulOK env =
     (case dedup_loop caseInsensitive nulOK (rev env) ([], [], False) of
        (out, saw, err) \<Rightarrow> (rev out, err))"

definition dedupEnv :: "host \<Rightarrow> string list \<Rightarrow> string list \<times> bool" where
  "dedupEnv h env = dedupEnvCase (GOOS h = ''windows'') (GOOS h = ''plan9'') env"

definition addCriticalEnv :: "host \<Rightarrow> string list \<Rightarrow> string list" where
  "addCriticalEnv h env =
     (if GOOS h \<noteq> ''windows'' then env
      else if list_ex (\<lambda>kv. case Cut_before kv (CHR ''='') of
                               None \<Rightarrow> False
                             | Some k \<Rightarrow> EqualFold k ''SYSTEMROOT'') env
      then env
      else env @ [''SYSTEMROOT='' @ os_Getenv h ''SYSTEMROOT''])"

text \<open>
  \<open>Cmd_entries\<close>: the entries and the error that \<^verbatim>\<open>environ\<close> has when it calls \<^verbatim>\<open>dedupEnv\<close>.
\<close>

definition Cmd_entries :: "host \<Rightarrow> exec_Cmd \<Rightarrow> string list \<times> bool" where
  "Cmd_entries h c =
     (case CmdEnv c of
        Some env \<Rightarrow> (env, False)
      | None \<Rightarrow>
          (if CmdDir c \<noteq> [] \<and> GOOS h \<noteq> ''windows'' \<and> GOOS h \<noteq> ''plan9'' then
             (case AbsPath h (CmdDir c) of
                Some pwd \<Rightarrow> (os_Environ h @ [''PWD='' @ pwd], False)
              | None \<Rightarrow> (os_Environ h, True))
           else (os_Environ h, False)))"

definition Cmd_environ :: "host \<Rightarrow> exec_Cmd \<Rightarrow> string list \<times> bool" where
  "Cmd_environ h c =
     (let (env, err) = Cmd_entries h c;
          (env, dedupErr) = dedupEnv h env
      in (addCriticalEnv h env, err \<or> dedupErr))"

definition child_environ :: "host \<Rightarrow> exec_Cmd \<Rightarrow> string list option" where
  "child_environ h c = (case Cmd_environ h c of (env, err) \<Rightarrow> if err then None else Some env)"

text \<open>
  What a process reads for a name in its environment: the value of the first entry
  \<^verbatim>\<open>name=value\<close>, the name being the text before the first \<^verbatim>\<open>=\<close>.
\<close>

definition entry_name :: "string \<Rightarrow> string" where
  "entry_name e = takeWhile (\<lambda>c. c \<noteq> CHR ''='') e"

definition entry_value :: "string \<Rightarrow> string" where
  "entry_value e = tl (dropWhile (\<lambda>c. c \<noteq> CHR ''='') e)"

fun getenv :: "string list \<Rightarrow> string \<Rightarrow> string option" where
  "getenv [] name = None"
| "getenv (e # env) name =
     (if CHR ''='' \<in> set e \<and> entry_name e = name then Some (entry_value e) else getenv env name)"

text \<open>
  \<open>valid_variable\<close>: a name and a value that \<^verbatim>\<open>os.Setenv\<close> accepts. \<open>env_well_formed\<close>: the
  environment table as the operating system and \<^verbatim>\<open>os.Setenv\<close> keep it on a POSIX host, with
  one entry for a name and every entry valid.
\<close>

definition valid_variable :: "string \<times> string \<Rightarrow> bool" where
  "valid_variable kv =
     (fst kv \<noteq> [] \<and> CHR ''='' \<notin> set (fst kv) \<and> CHR 0x00 \<notin> set (fst kv)
      \<and> CHR 0x00 \<notin> set (snd kv))"

definition env_well_formed :: "host \<Rightarrow> bool" where
  "env_well_formed h = (distinct (map fst (EnvTable h)) \<and> list_all valid_variable (EnvTable h))"

subsection \<open>Requests, results and failures\<close>

text \<open>
  The fields that \<^verbatim>\<open>RunCommandInput\<close> and \<^verbatim>\<open>RunScriptInput\<close> share are declared once, and
  \<^verbatim>\<open>RunScriptOutput\<close> extends \<^verbatim>\<open>RunCommandOutput\<close> by \<^verbatim>\<open>ShellUsed\<close>. A field the JSON
  request leaves out has Go's zero value: the empty string, the empty list, 0. Go ranges
  over the map \<^verbatim>\<open>EnvOverrides\<close> in an order it does not fix; the map is given as the list of
  its entries in the order of that iteration. \<^verbatim>\<open>TimeoutMs\<close> is a Go \<^verbatim>\<open>int\<close>, 64 bits wide
  and signed.
\<close>

record ExecInput =
  Cwd :: string
  EnvOverrides :: "(string \<times> string) list"
  TimeoutMs :: "64 word"

record RunCommandInput = ExecInput +
  Cmd :: string
  Args :: "string list"

record RunScriptInput = ExecInput +
  Script :: string
  Shell :: string

record RunCommandOutput =
  ExitCode :: int
  Stdout :: string
  Stderr :: string
  Truncated :: bool
  TimedOut :: bool
  DurationMs :: int

record RunScriptOutput = RunCommandOutput +
  ShellUsed :: string

text \<open>
  The failures the tools return, one constructor for each \<^verbatim>\<open>errors.New\<close> and
  \<^verbatim>\<open>fmt.Errorf\<close> of the file, with the values the message is formatted from:
  \<open>CommandBlocked pattern\<close> is ``command blocked by safety denylist (matched: pattern)'' and
  \<open>ScriptLineBlocked pattern line\<close> is ``script line blocked by safety denylist (matched:
  pattern): line''. These two are the policy violations.
\<close>

datatype tool_error =
    CmdRequired
  | ScriptRequired
  | KeyRequired
  | CommandBlocked string
  | ScriptLineBlocked string string
  | InvalidCwd
  | CwdNotDirectory string
  | RunFailed string
  | SetenvFailed

fun is_policy_violation :: "tool_error \<Rightarrow> bool" where
  "is_policy_violation (CommandBlocked pattern) = True"
| "is_policy_violation (ScriptLineBlocked pattern line) = True"
| "is_policy_violation e = False"

subsection \<open>The steps \<^verbatim>\<open>run_command\<close> and \<^verbatim>\<open>run_script\<close> share\<close>

text \<open>
  The two \<^verbatim>\<open>Execute\<close> methods repeat the same statements for the timeout, the working
  directory, the environment, the exit code and the output cap; each is one definition
  here. The timeout is \<^verbatim>\<open>time.Duration(timeoutMs) * time.Millisecond\<close>, a product of 64-bit
  integers.
\<close>

definition timeout_of :: "64 word \<Rightarrow> 64 word" where
  "timeout_of requested =
     (let timeoutMs = (if sint requested \<le> 0 then defaultTimeoutMs else requested)
      in timeoutMs * 1000000)"

definition working_dir :: "host \<Rightarrow> string \<Rightarrow> tool_error + string" where
  "working_dir h cwd =
     (if cwd \<noteq> [] then
        (case AbsPath h cwd of
           None \<Rightarrow> Inl InvalidCwd
         | Some absPath \<Rightarrow> if \<not> IsDir h absPath then Inl (CwdNotDirectory cwd) else Inr absPath)
      else Inr [])"

definition command_env :: "host \<Rightarrow> (string \<times> string) list \<Rightarrow> string list option" where
  "command_env h overrides =
     (if length overrides > 0 then Some (os_Environ h @ map env_line overrides) else None)"

definition exit_status :: "run_result \<Rightarrow> tool_error + bool \<times> int" where
  "exit_status r =
     (if DeadlineExceeded r then Inr (True, - 1)
      else (case RunErr r of
              None \<Rightarrow> Inr (False, 0)
            | Some (ExitError code) \<Rightarrow> Inr (False, code)
            | Some (OtherError msg) \<Rightarrow> Inl (RunFailed msg)))"

definition capped_result :: "run_result \<Rightarrow> bool \<times> int \<Rightarrow> RunCommandOutput" where
  "capped_result r status =
     (let (stdout, truncated) = capOutput (StdoutBytes r);
          (stderrStr, stderrTrunc) = capOutput (StderrBytes r)
      in \<lparr>ExitCode = snd status, Stdout = stdout, Stderr = stderrStr,
          Truncated = (if stderrTrunc then True else truncated),
          TimedOut = fst status, DurationMs = ElapsedMs r\<rparr>)"

subsection \<open>\<^verbatim>\<open>run_command\<close>\<close>

text \<open>
  \<^verbatim>\<open>RunCommandTool.Execute\<close> on the decoded request. The result is the failure or the
  output, and the commands on which \<^verbatim>\<open>cmd.Run()\<close> was called: none when the method returned
  before it.
\<close>

definition fullCmd_of :: "RunCommandInput \<Rightarrow> string" where
  "fullCmd_of inp = Cmd inp @ '' '' @ Join (Args inp) '' ''"

definition RunCommandTool_Execute ::
    "host \<Rightarrow> RunCommandInput \<Rightarrow> (tool_error + RunCommandOutput) \<times> exec_Cmd list" where
  "RunCommandTool_Execute h inp =
     (if Cmd inp = [] then (Inl CmdRequired, [])
      else
        (case isDenied (fullCmd_of inp) of
           (True, pattern) \<Rightarrow> (Inl (CommandBlocked pattern), [])
         | (False, _) \<Rightarrow>
             (case working_dir h (Cwd inp) of
                Inl e \<Rightarrow> (Inl e, [])
              | Inr dir \<Rightarrow>
                  (let cmd = \<lparr>CmdName = Cmd inp, CmdArgs = Args inp, CmdDir = dir,
                              CmdEnv = command_env h (EnvOverrides inp),
                              CmdTimeout = timeout_of (TimeoutMs inp)\<rparr>;
                       r = RunCmd h cmd
                   in (case exit_status r of
                         Inl e \<Rightarrow> (Inl e, [cmd])
                       | Inr status \<Rightarrow> (Inr (capped_result r status), [cmd]))))))"

subsection \<open>\<^verbatim>\<open>run_script\<close>\<close>

text \<open>
  The loop over the lines of the script: a trimmed line that is empty or starts with \<^verbatim>\<open>#\<close>
  is skipped (\<^verbatim>\<open>continue\<close>); the loop returns at the first other line that is denied, with
  the pattern and the trimmed line.
\<close>

definition skipped_line :: "string \<Rightarrow> bool" where
  "skipped_line line = (line = [] \<or> HasPrefix line ''#'')"

fun check_lines :: "string list \<Rightarrow> (string \<times> string) option" where
  "check_lines [] = None"
| "check_lines (l # ls) =
     (let line = TrimSpace l in
      if skipped_line line then check_lines ls
      else (case isDenied line of
              (True, pattern) \<Rightarrow> Some (pattern, line)
            | (False, _) \<Rightarrow> check_lines ls))"

text \<open>\<^verbatim>\<open>resolveShell\<close>: the \<^verbatim>\<open>switch\<close> on the requested name, then the default of the platform.\<close>

definition look :: "host \<Rightarrow> string \<Rightarrow> string \<Rightarrow> (string \<times> string) option" where
  "look h name flag = (case LookPath h name of None \<Rightarrow> None | Some p \<Rightarrow> Some (p, flag))"

definition requested_shell :: "host \<Rightarrow> string \<Rightarrow> (string \<times> string) option" where
  "requested_shell h requested =
     (let name = ToLower requested in
      if name = ''bash'' then look h ''bash'' ''-c''
      else if name = ''zsh'' then look h ''zsh'' ''-c''
      else if name = ''sh'' then look h ''sh'' ''-c''
      else if name = ''pwsh'' \<or> name = ''powershell'' then
        (case look h ''pwsh'' ''-Command'' of
           Some found \<Rightarrow> Some found
         | None \<Rightarrow> look h ''powershell'' ''-Command'')
      else if name = ''fish'' then look h ''fish'' ''-c''
      else None)"

fun first_shell :: "host \<Rightarrow> string list \<Rightarrow> string \<times> string" where
  "first_shell h [] = (''/bin/sh'', ''-c'')"
| "first_shell h (sh # rest) =
     (case LookPath h sh of Some p \<Rightarrow> (p, ''-c'') | None \<Rightarrow> first_shell h rest)"

definition default_shell :: "host \<Rightarrow> string \<times> string" where
  "default_shell h =
     (if GOOS h = ''windows'' then
        (case look h ''pwsh'' ''-Command'' of
           Some found \<Rightarrow> found
         | None \<Rightarrow>
             (case look h ''powershell'' ''-Command'' of
                Some found \<Rightarrow> found
              | None \<Rightarrow> (''cmd'', ''/C'')))
      else first_shell h [''bash'', ''zsh'', ''sh''])"

definition resolveShell :: "host \<Rightarrow> string \<Rightarrow> string \<times> string" where
  "resolveShell h requested =
     (case requested_shell h requested of Some found \<Rightarrow> found | None \<Rightarrow> default_shell h)"

definition RunScriptTool_Execute ::
    "host \<Rightarrow> RunScriptInput \<Rightarrow> (tool_error + RunScriptOutput) \<times> exec_Cmd list" where
  "RunScriptTool_Execute h inp =
     (if Script inp = [] then (Inl ScriptRequired, [])
      else
        (case check_lines (Split (Script inp) (CHR 0x0A)) of
           Some (pattern, line) \<Rightarrow> (Inl (ScriptLineBlocked pattern line), [])
         | None \<Rightarrow>
             (let (shell, shellArg) = resolveShell h (Shell inp) in
              case working_dir h (Cwd inp) of
                Inl e \<Rightarrow> (Inl e, [])
              | Inr dir \<Rightarrow>
                  (let cmd = \<lparr>CmdName = shell, CmdArgs = [shellArg, Script inp], CmdDir = dir,
                              CmdEnv = command_env h (EnvOverrides inp),
                              CmdTimeout = timeout_of (TimeoutMs inp)\<rparr>;
                       r = RunCmd h cmd
                   in (case exit_status r of
                         Inl e \<Rightarrow> (Inl e, [cmd])
                       | Inr status \<Rightarrow>
                           (Inr (RunCommandOutput.extend (capped_result r status)
                                   \<lparr>ShellUsed = shell\<rparr>), [cmd]))))))"

subsection \<open>\<^verbatim>\<open>set_env\<close> and \<^verbatim>\<open>get_env\<close>\<close>

record SetEnvInput =
  SetKey :: string
  SetValue :: string

record SetEnvOutput =
  Success :: bool
  Warned :: bool

text \<open>
  \<^verbatim>\<open>SetEnvTool.Execute\<close> returns its output and the host with the variable set. \<open>Warned\<close>
  says that the output carries the message about a sensitive key.
\<close>

definition SetEnvTool_Execute :: "host \<Rightarrow> SetEnvInput \<Rightarrow> (tool_error + SetEnvOutput) \<times> host" where
  "SetEnvTool_Execute h inp =
     (if SetKey inp = [] then (Inl KeyRequired, h)
      else if isSensitiveEnvKey (SetKey inp) then
        (case os_Setenv h (SetKey inp) (SetValue inp) of
           None \<Rightarrow> (Inl SetenvFailed, h)
         | Some h' \<Rightarrow> (Inr \<lparr>Success = True, Warned = True\<rparr>, h'))
      else
        (case os_Setenv h (SetKey inp) (SetValue inp) of
           None \<Rightarrow> (Inl SetenvFailed, h)
         | Some h' \<Rightarrow> (Inr \<lparr>Success = True, Warned = False\<rparr>, h')))"

record GetEnvInput =
  Keys :: "string list"
  IncludeSensitive :: bool

record EnvEntry =
  Key :: string
  Value :: string
  Redacted :: bool

record GetEnvOutput =
  Variables :: "EnvEntry list"
  Count :: nat

text \<open>The entry for one variable, as both loops of \<^verbatim>\<open>GetEnvTool.Execute\<close> build it.\<close>

definition env_entry :: "bool \<Rightarrow> string \<Rightarrow> string \<Rightarrow> EnvEntry" where
  "env_entry includeSensitive key val =
     (if isSensitiveEnvKey key \<and> \<not> includeSensitive
      then \<lparr>Key = key, Value = redactValue val, Redacted = True\<rparr>
      else \<lparr>Key = key, Value = val, Redacted = False\<rparr>)"

fun entries_of_keys :: "host \<Rightarrow> bool \<Rightarrow> string list \<Rightarrow> EnvEntry list" where
  "entries_of_keys h includeSensitive [] = []"
| "entries_of_keys h includeSensitive (key # keys) =
     (case os_LookupEnv h key of
        None \<Rightarrow> entries_of_keys h includeSensitive keys
      | Some val \<Rightarrow> env_entry includeSensitive key val # entries_of_keys h includeSensitive keys)"

fun entries_of_environ :: "bool \<Rightarrow> string list \<Rightarrow> EnvEntry list" where
  "entries_of_environ includeSensitive [] = []"
| "entries_of_environ includeSensitive (envLine # rest) =
     (case SplitN2 envLine (CHR ''='') of
        [key, val] \<Rightarrow> env_entry includeSensitive key val # entries_of_environ includeSensitive rest
      | _ \<Rightarrow> entries_of_environ includeSensitive rest)"

definition GetEnvTool_Execute :: "host \<Rightarrow> GetEnvInput \<Rightarrow> GetEnvOutput" where
  "GetEnvTool_Execute h inp =
     (let entries =
        (if length (Keys inp) > 0 then entries_of_keys h (IncludeSensitive inp) (Keys inp)
         else entries_of_environ (IncludeSensitive inp) (os_Environ h))
      in \<lparr>Variables = entries, Count = length entries\<rparr>)"

subsection \<open>A host and its programs, for examples\<close>

text \<open>
  A POSIX host on which \<^verbatim>\<open>zsh\<close> and \<^verbatim>\<open>sh\<close> are installed and \<^verbatim>\<open>/tmp\<close> is the only
  directory. A program is the name of the command, or the script text when the command
  is a shell called with \<^verbatim>\<open>-c\<close>: \<^verbatim>\<open>sleep\<close> outlives every deadline, \<^verbatim>\<open>false\<close> exits with
  status 1, \<^verbatim>\<open>yes\<close> writes one byte more than the output cap and exits with status 0,
  \<^verbatim>\<open>nosuch\<close> cannot be started, and every other program prints a line and exits
  with status 0. \<open>example_windows_host\<close> is the same host with the platform \<^verbatim>\<open>windows\<close>.
\<close>

definition example_program :: "exec_Cmd \<Rightarrow> string" where
  "example_program c =
     (case CmdArgs c of
        [flag, script] \<Rightarrow> if flag = ''-c'' then script else CmdName c
      | _ \<Rightarrow> CmdName c)"

definition example_run :: "exec_Cmd \<Rightarrow> run_result" where
  "example_run c =
     (let prog = example_program c in
      if prefix ''sleep'' prog then
        \<lparr>DeadlineExceeded = True, RunErr = Some (ExitError (- 1)), StdoutBytes = [],
         StderrBytes = [], ElapsedMs = 100\<rparr>
      else if prog = ''false'' then
        \<lparr>DeadlineExceeded = False, RunErr = Some (ExitError 1), StdoutBytes = [],
         StderrBytes = ''no'', ElapsedMs = 1\<rparr>
      else if prog = ''yes'' then
        \<lparr>DeadlineExceeded = False, RunErr = None,
         StdoutBytes = replicate (Suc maxOutputBytes) (CHR ''y''), StderrBytes = [],
         ElapsedMs = 7\<rparr>
      else if prog = ''nosuch'' then
        \<lparr>DeadlineExceeded = False, RunErr = Some (OtherError ''not found''), StdoutBytes = [],
         StderrBytes = [], ElapsedMs = 0\<rparr>
      else
        \<lparr>DeadlineExceeded = False, RunErr = None, StdoutBytes = ''hello'', StderrBytes = [],
         ElapsedMs = 2\<rparr>)"

definition example_host :: host where
  "example_host =
     \<lparr>EnvTable = [(''HOME'', ''/root''), (''A'', ''1''), (''X'', ''0''),
                  (''API_KEY'', ''abcdef1234''), (''TOKEN'', ''****'')],
      AbsPath = (\<lambda>p. Some p),
      IsDir = (\<lambda>p. p = ''/tmp''),
      LookPath = (\<lambda>name. if name = ''zsh'' then Some ''/usr/bin/zsh''
                         else if name = ''sh'' then Some ''/bin/sh'' else None),
      GOOS = ''linux'',
      RunCmd = example_run\<rparr>"

definition example_windows_host :: host where
  "example_windows_host = example_host\<lparr>GOOS := ''windows''\<rparr>"

definition example_command :: "string \<Rightarrow> string list \<Rightarrow> RunCommandInput" where
  "example_command name arguments =
     \<lparr>Cwd = [], EnvOverrides = [], TimeoutMs = 0, Cmd = name, Args = arguments\<rparr>"

definition example_script :: "string \<Rightarrow> RunScriptInput" where
  "example_script text =
     \<lparr>Cwd = [], EnvOverrides = [], TimeoutMs = 0, Script = text, Shell = []\<rparr>"







subsection \<open>Notions used in the proofs\<close>

text \<open>
  \<open>consumes p w q\<close>: the matcher went from \<open>p\<close> to \<open>q\<close> by reading \<open>w\<close>. \<open>needs r c\<close>: every
  match of \<open>r\<close> reads the byte \<open>c\<close>, by the shape of \<open>r\<close> alone.
\<close>

definition consumes :: "cursor \<Rightarrow> string \<Rightarrow> cursor \<Rightarrow> bool" where
  "consumes p w q = (snd p = w @ snd q \<and> fst q = rev w @ fst p)"

primrec needs :: "regex \<Rightarrow> char \<Rightarrow> bool" where
  "needs EmptyMatch c = False"
| "needs (Literal x) c = (x = c)"
| "needs (CharClass cs) c = False"
| "needs AnyCharNotNL c = False"
| "needs EndText c = False"
| "needs WordBoundary c = False"
| "needs (Capture r) c = needs r c"
| "needs (Star r) c = False"
| "needs (Plus r) c = needs r c"
| "needs (Concat r s) c = (needs r c \<or> needs s c)"
| "needs (Alternate r s) c = (needs r c \<and> needs s c)"

text \<open>
  \<open>firsts xs seen\<close>: the pairs of \<open>xs\<close> whose key is not in \<open>seen\<close> and is not the key of a
  pair before them in \<open>xs\<close>.
\<close>

fun firsts :: "('a \<times> 'b) list \<Rightarrow> 'a set \<Rightarrow> ('a \<times> 'b) list" where
  "firsts [] seen = []"
| "firsts (kv # xs) seen =
     (if fst kv \<in> seen then firsts xs seen else kv # firsts xs (insert (fst kv) seen))"

text \<open>
  \<open>keep_last key env\<close>: the entries of \<open>env\<close> in their order, without the empty entries that
  have no key and without every entry whose key is the key of a later entry.
  \<open>first_entries key xs seen\<close>: the entries of \<open>xs\<close> without the empty entries that have no
  key and without every entry whose key is in \<open>seen\<close> or is the key of an earlier entry.
  \<open>keys_of key xs\<close>: the keys of the entries of \<open>xs\<close>.
\<close>

definition keys_of :: "(string \<Rightarrow> string option) \<Rightarrow> string list \<Rightarrow> string set" where
  "keys_of key xs = {k. \<exists>e \<in> set xs. key e = Some k}"

fun keep_last :: "(string \<Rightarrow> string option) \<Rightarrow> string list \<Rightarrow> string list" where
  "keep_last key [] = []"
| "keep_last key (e # es) =
     (case key e of
        None \<Rightarrow> if e = [] then keep_last key es else e # keep_last key es
      | Some k \<Rightarrow> if list_ex (\<lambda>e'. key e' = Some k) es then keep_last key es
                  else e # keep_last key es)"

fun first_entries :: "(string \<Rightarrow> string option) \<Rightarrow> string list \<Rightarrow> string set \<Rightarrow> string list" where
  "first_entries key [] seen = []"
| "first_entries key (e # xs) seen =
     (case key e of
        None \<Rightarrow> if e = [] then first_entries key xs seen else e # first_entries key xs seen
      | Some k \<Rightarrow> if k \<in> seen then first_entries key xs seen
                  else e # first_entries key xs (insert k seen))"

section \<open>Properties\<close>

subsection \<open>The matcher\<close>

lemma consumes_refl: "consumes p [] p"
  by (simp add: consumes_def)

lemma consumes_trans: "consumes p w q \<Longrightarrow> consumes q v r \<Longrightarrow> consumes p (w @ v) r"
  by (simp add: consumes_def)

lemma step_char_iff:
  "q \<in> set (step_char P p) \<longleftrightarrow> (\<exists>c. P c \<and> consumes p [c] q)"
proof (cases p)
  case (Pair prev after)
  show ?thesis
  proof (cases after)
    case Nil
    with Pair show ?thesis by (simp add: consumes_def)
  next
    case (Cons c cs)
    with Pair show ?thesis by (cases q) (auto simp: consumes_def)
  qed
qed

lemma repeat_from_self: "p \<in> set (repeat_from f n p)"
  by (cases n) simp_all

lemma repeat_from_step:
  assumes "q \<in> set (f p)" and "length (snd q) < length (snd p)" and "r \<in> set (repeat_from f n q)"
  shows "r \<in> set (repeat_from f (Suc n) p)"
proof -
  from assms(1,2) have "q \<in> set (filter (\<lambda>q. length (snd q) < length (snd p)) (f p))" by simp
  with assms(3) show ?thesis by (simp del: set_filter) blast
qed

lemma repeat_from_cases:
  assumes "r \<in> set (repeat_from f n p)"
  shows "r = p \<or> (\<exists>q m. n = Suc m \<and> q \<in> set (f p) \<and> r \<in> set (repeat_from f m q))"
proof (cases n)
  case 0
  with assms show ?thesis by simp
next
  case (Suc m)
  with assms show ?thesis by auto
qed

lemma repeat_from_consumes:
  assumes f: "\<And>p q. q \<in> set (f p) \<Longrightarrow> \<exists>w. P w \<and> consumes p w q"
    and P0: "P []" and PP: "\<And>w v. P w \<Longrightarrow> P v \<Longrightarrow> P (w @ v)"
  shows "q \<in> set (repeat_from f n p) \<Longrightarrow> \<exists>w. P w \<and> consumes p w q"
proof (induction n arbitrary: p)
  case 0
  then have "q = p" by simp
  then show ?case using P0 consumes_refl by blast
next
  case (Suc n)
  from repeat_from_cases [OF Suc.prems]
  consider "q = p" | m where "m \<in> set (f p)" "q \<in> set (repeat_from f n m)"
    by auto
  then show ?case
  proof cases
    case 1
    then show ?thesis using P0 consumes_refl by blast
  next
    case 2
    from f [OF 2(1)] obtain w where w: "P w" "consumes p w m" by blast
    from Suc.IH [OF 2(2)] obtain v where v: "P v" "consumes m v q" by blast
    from w v have "P (w @ v)" "consumes p (w @ v) q" using PP consumes_trans by blast+
    then show ?thesis by blast
  qed
qed

lemma repeat_from_consumes_any:
  assumes f: "\<And>p q. q \<in> set (f p) \<Longrightarrow> \<exists>w. consumes p w q"
    and q: "q \<in> set (repeat_from f n p)"
  shows "\<exists>w. consumes p w q"
proof -
  have "\<exists>w. True \<and> consumes p w q"
    by (rule repeat_from_consumes [where f = f and n = n and P = "\<lambda>_. True"])
      (use f q in simp_all)
  then show ?thesis by simp
qed

lemma ends_consumes: "q \<in> set (ends r p) \<Longrightarrow> \<exists>w. consumes p w q"
proof (induction r arbitrary: p q)
  case EmptyMatch
  then have "q = p" by simp
  then show ?case using consumes_refl by blast
next
  case (Literal x)
  then show ?case by (auto simp: step_char_iff)
next
  case (CharClass x)
  then show ?case by (auto simp: step_char_iff)
next
  case AnyCharNotNL
  then show ?case by (auto simp: step_char_iff)
next
  case EndText
  then have "q = p" by (simp split: if_splits)
  then show ?case using consumes_refl by blast
next
  case WordBoundary
  then have "q = p" by (simp split: if_splits)
  then show ?case using consumes_refl by blast
next
  case (Capture r)
  then show ?case by simp
next
  case (Star r)
  from Star.prems have "q \<in> set (repeat_from (ends r) (length (snd p)) p)" by simp
  then show ?case using Star.IH by (rule repeat_from_consumes_any [rotated])
next
  case (Plus r)
  from Plus.prems obtain m where m: "m \<in> set (ends r p)"
    and q: "q \<in> set (repeat_from (ends r) (length (snd m)) m)" by auto
  from q have "\<exists>w. consumes m w q" using Plus.IH by (rule repeat_from_consumes_any [rotated])
  then obtain v where v: "consumes m v q" by blast
  from Plus.IH [OF m] obtain w where "consumes p w m" by blast
  with v have "consumes p (w @ v) q" by (rule consumes_trans [rotated])
  then show ?case by blast
next
  case (Concat r s)
  from Concat.prems obtain m where m: "m \<in> set (ends r p)" and q: "q \<in> set (ends s m)" by auto
  from Concat.IH(1) [OF m] obtain w where w: "consumes p w m" by blast
  from Concat.IH(2) [OF q] obtain v where v: "consumes m v q" by blast
  from w v have "consumes p (w @ v) q" by (rule consumes_trans)
  then show ?case by blast
next
  case (Alternate r s)
  from Alternate.prems have "q \<in> set (ends r p) \<or> q \<in> set (ends s p)" by simp
  then show ?case using Alternate.IH by blast
qed

lemma ends_needs: "needs r c \<Longrightarrow> q \<in> set (ends r p) \<Longrightarrow> \<exists>w. c \<in> set w \<and> consumes p w q"
proof (induction r arbitrary: p q)
  case (Literal x)
  then have "consumes p [c] q" by (auto simp: step_char_iff)
  moreover have "c \<in> set [c]" by simp
  ultimately show ?case by blast
next
  case (Capture r)
  then show ?case by simp
next
  case (Plus r)
  from Plus.prems obtain m where m: "m \<in> set (ends r p)"
    and q: "q \<in> set (repeat_from (ends r) (length (snd m)) m)" by auto
  from q have "\<exists>w. consumes m w q" using ends_consumes by (rule repeat_from_consumes_any [rotated])
  then obtain v where v: "consumes m v q" by blast
  from Plus.prems have "needs r c" by simp
  from Plus.IH [OF this m] obtain w where w: "c \<in> set w" "consumes p w m" by blast
  from w(2) v have "consumes p (w @ v) q" by (rule consumes_trans)
  moreover from w(1) have "c \<in> set (w @ v)" by simp
  ultimately show ?case by blast
next
  case (Concat r s)
  from Concat.prems obtain m where m: "m \<in> set (ends r p)" and q: "q \<in> set (ends s m)" by auto
  from ends_consumes [OF m] obtain w where w: "consumes p w m" by blast
  from ends_consumes [OF q] obtain v where v: "consumes m v q" by blast
  show ?case
  proof (cases "needs r c")
    case True
    from Concat.IH(1) [OF True m] obtain w' where w': "c \<in> set w'" "consumes p w' m" by blast
    from w'(2) v have "consumes p (w' @ v) q" by (rule consumes_trans)
    moreover from w'(1) have "c \<in> set (w' @ v)" by simp
    ultimately show ?thesis by blast
  next
    case False
    with Concat.prems have "needs s c" by simp
    from Concat.IH(2) [OF this q] obtain v' where v': "c \<in> set v'" "consumes m v' q" by blast
    from w v'(2) have "consumes p (w @ v') q" by (rule consumes_trans)
    moreover from v'(1) have "c \<in> set (w @ v')" by simp
    ultimately show ?thesis by blast
  qed
next
  case (Alternate r s)
  from Alternate.prems have "needs r c" "needs s c"
    and "q \<in> set (ends r p) \<or> q \<in> set (ends s p)" by simp_all
  then show ?case using Alternate.IH by blast
qed simp_all

lemma search_iff:
  "search re (prev, s) \<longleftrightarrow> (\<exists>pre post. s = pre @ post \<and> ends re (rev pre @ prev, post) \<noteq> [])"
proof (induction s arbitrary: prev)
  case Nil
  then show ?case by simp
next
  case (Cons c cs)
  show ?case
  proof
    assume "search re (prev, c # cs)"
    then consider "ends re (prev, c # cs) \<noteq> []" | "search re (c # prev, cs)" by auto
    then show "\<exists>pre post. c # cs = pre @ post \<and> ends re (rev pre @ prev, post) \<noteq> []"
    proof cases
      case 1
      then have "c # cs = [] @ (c # cs) \<and> ends re (rev [] @ prev, c # cs) \<noteq> []" by simp
      then show ?thesis by blast
    next
      case 2
      with Cons.IH obtain pre post where "cs = pre @ post" "ends re (rev pre @ c # prev, post) \<noteq> []"
        by blast
      then have "c # cs = (c # pre) @ post \<and> ends re (rev (c # pre) @ prev, post) \<noteq> []" by simp
      then show ?thesis by blast
    qed
  next
    assume "\<exists>pre post. c # cs = pre @ post \<and> ends re (rev pre @ prev, post) \<noteq> []"
    then obtain pre post where pp: "c # cs = pre @ post" "ends re (rev pre @ prev, post) \<noteq> []"
      by blast
    show "search re (prev, c # cs)"
    proof (cases pre)
      case Nil
      with pp show ?thesis by auto
    next
      case (Cons a pre')
      with pp have "cs = pre' @ post" "ends re (rev pre' @ c # prev, post) \<noteq> []" by auto
      with Cons.IH have "search re (c # prev, cs)" by blast
      then show ?thesis by simp
    qed
  qed
qed

lemma MatchString_iff:
  "MatchString re s \<longleftrightarrow> (\<exists>pre post. s = pre @ post \<and> ends re (rev pre, post) \<noteq> [])"
  using search_iff [of re "[]" s] by (simp add: MatchString_def)

lemma MatchString_needs:
  assumes n: "needs re c" and m: "MatchString re s"
  shows "c \<in> set s"
proof -
  from m obtain pre post where s: "s = pre @ post" and ne: "ends re (rev pre, post) \<noteq> []"
    unfolding MatchString_iff by blast
  from ne obtain q where q: "q \<in> set (ends re (rev pre, post))"
    by (cases "ends re (rev pre, post)") auto
  from ends_needs [OF n q] obtain w where "c \<in> set w" "consumes (rev pre, post) w q" by blast
  with s show ?thesis by (auto simp: consumes_def)
qed

lemma lits_Nil [simp]: "lits [] = EmptyMatch"
  by (simp add: lits_def)

lemma lits_Cons [simp]: "lits (c # w) = Concat (Literal c) (lits w)"
  by (simp add: lits_def)

lemma cat_Nil [simp]: "cat [] = EmptyMatch"
  by (simp add: cat_def)

lemma cat_Cons [simp]: "cat (r # rs) = Concat r (cat rs)"
  by (simp add: cat_def)

lemma ends_Concat_in:
  "m \<in> set (ends r p) \<Longrightarrow> q \<in> set (ends s m) \<Longrightarrow> q \<in> set (ends (Concat r s) p)"
  by auto

lemma ends_Concat_cases:
  assumes "q \<in> set (ends (Concat r s) p)"
  obtains m where "m \<in> set (ends r p)" "q \<in> set (ends s m)"
  using assms by auto

lemma ends_lits_in: "(rev w @ prev, post) \<in> set (ends (lits w) (prev, w @ post))"
  by (induction w arbitrary: prev) simp_all

lemma ends_lits_consumes: "q \<in> set (ends (lits w) p) \<Longrightarrow> consumes p w q"
proof (induction w arbitrary: p)
  case Nil
  then show ?case by (simp add: consumes_def)
next
  case (Cons c w)
  from Cons.prems obtain m where m: "m \<in> set (ends (Literal c) p)" and q: "q \<in> set (ends (lits w) m)"
    by auto
  from m have "consumes p [c] m" by (auto simp: step_char_iff)
  moreover from Cons.IH [OF q] have "consumes m w q" .
  ultimately have "consumes p ([c] @ w) q" by (rule consumes_trans)
  then show ?case by simp
qed

lemma repeat_from_run:
  "list_all P ws \<Longrightarrow> length ws \<le> n
     \<Longrightarrow> (rev ws @ prev, post) \<in> set (repeat_from (step_char P) n (prev, ws @ post))"
proof (induction ws arbitrary: n prev)
  case Nil
  then show ?case by (simp add: repeat_from_self)
next
  case (Cons c ws)
  from Cons.prems obtain k where n: "n = Suc k" and k: "length ws \<le> k" by (cases n) auto
  from Cons.prems have c: "P c" and ws: "list_all P ws" by simp_all
  have step: "(c # prev, ws @ post) \<in> set (step_char P (prev, (c # ws) @ post))"
    using c by simp
  have run: "(rev ws @ c # prev, post) \<in> set (repeat_from (step_char P) k (c # prev, ws @ post))"
    by (rule Cons.IH [OF ws k])
  have shorter: "length (snd (c # prev, ws @ post)) < length (snd (prev, (c # ws) @ post))"
    by simp
  from step shorter run have "(rev ws @ c # prev, post)
      \<in> set (repeat_from (step_char P) (Suc k) (prev, (c # ws) @ post))"
    by (rule repeat_from_step)
  with n show ?case by simp
qed

lemma repeat_from_run_consumes:
  assumes "q \<in> set (repeat_from (step_char P) n p)"
  shows "\<exists>w. list_all P w \<and> consumes p w q"
proof (rule repeat_from_consumes [where f = "step_char P" and n = n])
  show "\<exists>w. list_all P w \<and> consumes p w q" if "q \<in> set (step_char P p)" for p q
  proof -
    from that obtain c where "P c" "consumes p [c] q" unfolding step_char_iff by blast
    then have "list_all P [c] \<and> consumes p [c] q" by simp
    then show ?thesis by blast
  qed
qed (use assms in simp_all)

lemma ends_Star_class_in:
  assumes "set ws \<subseteq> set cs"
  shows "(rev ws @ prev, post) \<in> set (ends (Star (CharClass cs)) (prev, ws @ post))"
proof -
  from assms have "list_all (\<lambda>x. x \<in> set cs) ws" by (auto simp: list_all_iff)
  then have "(rev ws @ prev, post)
      \<in> set (repeat_from (step_char (\<lambda>x. x \<in> set cs)) (length (ws @ post)) (prev, ws @ post))"
    by (rule repeat_from_run) simp
  then show ?thesis by (simp add: ends.simps(3) [abs_def])
qed

lemma ends_Plus_class_in:
  assumes "set ws \<subseteq> set cs" and "ws \<noteq> []"
  shows "(rev ws @ prev, post) \<in> set (ends (Plus (CharClass cs)) (prev, ws @ post))"
proof -
  from assms obtain c ws' where ws: "ws = c # ws'" by (cases ws) auto
  with assms have c: "c \<in> set cs" and "list_all (\<lambda>x. x \<in> set cs) ws'" by (auto simp: list_all_iff)
  then have "(rev ws' @ c # prev, post)
      \<in> set (repeat_from (step_char (\<lambda>x. x \<in> set cs)) (length (ws' @ post)) (c # prev, ws' @ post))"
    by (intro repeat_from_run) simp_all
  with c ws show ?thesis by (simp add: ends.simps(3) [abs_def])
qed

lemma ends_Star_any_in:
  assumes "CHR 0x0A \<notin> set ws"
  shows "(rev ws @ prev, post) \<in> set (ends (Star AnyCharNotNL) (prev, ws @ post))"
proof -
  from assms have "list_all (\<lambda>x. x \<noteq> CHR 0x0A) ws" by (auto simp: list_all_iff)
  then have "(rev ws @ prev, post)
      \<in> set (repeat_from (step_char (\<lambda>x. x \<noteq> CHR 0x0A)) (length (ws @ post)) (prev, ws @ post))"
    by (rule repeat_from_run) simp
  then show ?thesis by (simp add: ends.simps(4) [abs_def])
qed

lemma ends_Star_class_consumes:
  assumes "q \<in> set (ends (Star (CharClass cs)) p)"
  shows "\<exists>w. set w \<subseteq> set cs \<and> consumes p w q"
proof -
  from assms have "q \<in> set (repeat_from (step_char (\<lambda>x. x \<in> set cs)) (length (snd p)) p)"
    by (simp add: ends.simps(3) [abs_def])
  from repeat_from_run_consumes [OF this] show ?thesis by (auto simp: list_all_iff)
qed

lemma MatchString_I:
  "q \<in> set (ends re (rev pre, post)) \<Longrightarrow> MatchString re (pre @ post)"
  unfolding MatchString_iff by force

lemma ends_WordBoundary_in: "at_word_boundary p \<Longrightarrow> p \<in> set (ends WordBoundary p)"
  by simp

lemma ends_EmptyMatch_in: "p \<in> set (ends EmptyMatch p)"
  by simp

lemma ends_perl_space_plus_in:
  "set ws \<subseteq> set perl_space_chars \<Longrightarrow> ws \<noteq> []
     \<Longrightarrow> (rev ws @ prev, post) \<in> set (ends (Plus perl_space) (prev, ws @ post))"
  unfolding perl_space_def by (rule ends_Plus_class_in)

lemma ends_perl_space_star_in:
  "set ws \<subseteq> set perl_space_chars
     \<Longrightarrow> (rev ws @ prev, post) \<in> set (ends (Star perl_space) (prev, ws @ post))"
  unfolding perl_space_def by (rule ends_Star_class_in)

lemma word_bounded_literal:
  assumes w: "w \<noteq> []" "is_word_char (hd w)" "is_word_char (last w)"
    and pre: "\<not> starts_with_word_char (rev pre)" and post: "\<not> starts_with_word_char post"
  shows "MatchString (cat [WordBoundary, lits w, WordBoundary]) (pre @ w @ post)"
proof -
  let ?p0 = "(rev pre, w @ post)" and ?p1 = "(rev w @ rev pre, post)"
  from w have "starts_with_word_char (w @ post)" by (cases w) simp_all
  with pre have 1: "?p0 \<in> set (ends WordBoundary ?p0)" by simp
  have 2: "?p1 \<in> set (ends (lits w) ?p0)" by (rule ends_lits_in)
  from w have "starts_with_word_char (rev w @ rev pre)"
    by (cases w rule: rev_cases) simp_all
  with post have 3: "?p1 \<in> set (ends WordBoundary ?p1)" by simp
  have "?p1 \<in> set (ends (cat [WordBoundary, lits w, WordBoundary]) ?p0)"
    unfolding cat_Cons cat_Nil
    by (rule ends_Concat_in [OF 1 ends_Concat_in [OF 2 ends_Concat_in [OF 3 ends_EmptyMatch_in]]])
  then show ?thesis by (rule MatchString_I)
qed

lemma is_word_char_simps [simp]:
  "is_word_char (CHR ''m'')" "is_word_char (CHR ''s'')" "is_word_char (CHR ''r'')"
  "is_word_char (CHR ''t'')" "is_word_char (CHR ''n'')" "is_word_char (CHR ''d'')"
  "is_word_char (CHR ''l'')" "is_word_char (CHR ''p'')" "is_word_char (CHR ''e'')"
  "is_word_char (CHR ''k'')"
  by (simp_all add: is_word_char_def)

lemma mkfs_matches:
  "\<not> starts_with_word_char (rev pre) \<Longrightarrow> \<not> starts_with_word_char post
     \<Longrightarrow> MatchString re_mkfs (pre @ ''mkfs'' @ post)"
  unfolding re_mkfs_def by (rule word_bounded_literal) simp_all

lemma shutdown_matches:
  "\<not> starts_with_word_char (rev pre) \<Longrightarrow> \<not> starts_with_word_char post
     \<Longrightarrow> MatchString re_shutdown (pre @ ''shutdown'' @ post)"
  unfolding re_shutdown_def by (rule word_bounded_literal) simp_all

lemma reboot_matches:
  "\<not> starts_with_word_char (rev pre) \<Longrightarrow> \<not> starts_with_word_char post
     \<Longrightarrow> MatchString re_reboot (pre @ ''reboot'' @ post)"
  unfolding re_reboot_def by (rule word_bounded_literal) simp_all

lemma rm_matches:
  assumes pre: "\<not> starts_with_word_char (rev pre)"
    and ws1: "set ws1 \<subseteq> set perl_space_chars" "ws1 \<noteq> []"
    and ws2: "set ws2 \<subseteq> set perl_space_chars" "ws2 \<noteq> []"
    and ws3: "set ws3 \<subseteq> set perl_space_chars"
  shows "MatchString re_rm (pre @ ''rm'' @ ws1 @ ''-rf'' @ ws2 @ ''/'' @ ws3)"
proof -
  let ?s5 = "ws3 @ []"
  let ?s4 = "''/'' @ ?s5"
  let ?s3 = "ws2 @ ?s4"
  let ?s2 = "''-rf'' @ ?s3"
  let ?s1 = "ws1 @ ?s2"
  let ?s0 = "''rm'' @ ?s1"
  let ?b0 = "rev pre"
  let ?b1 = "rev ''rm'' @ ?b0"
  let ?b2 = "rev ws1 @ ?b1"
  let ?b3 = "rev ''-rf'' @ ?b2"
  let ?b4 = "rev ws2 @ ?b3"
  let ?b5 = "rev ''/'' @ ?b4"
  let ?b6 = "rev ws3 @ ?b5"
  from pre have 1: "(?b0, ?s0) \<in> set (ends WordBoundary (?b0, ?s0))" by simp
  have 2: "(?b1, ?s1) \<in> set (ends (lits ''rm'') (?b0, ?s0))" by (rule ends_lits_in)
  have 3: "(?b2, ?s2) \<in> set (ends (Plus perl_space) (?b1, ?s1))"
    using ws1 by (rule ends_perl_space_plus_in)
  have 4: "(?b3, ?s3) \<in> set (ends (lits ''-rf'') (?b2, ?s2))" by (rule ends_lits_in)
  have 5: "(?b4, ?s4) \<in> set (ends (Plus perl_space) (?b3, ?s3))"
    using ws2 by (rule ends_perl_space_plus_in)
  have 6: "(?b5, ?s5) \<in> set (ends (lits ''/'') (?b4, ?s4))" by (rule ends_lits_in)
  have 7: "(?b6, []) \<in> set (ends (Star perl_space) (?b5, ?s5))"
    using ws3 by (rule ends_perl_space_star_in)
  have 8: "(?b6, []) \<in> set (ends EndText (?b6, []))" by simp
  have "(?b6, []) \<in> set (ends re_rm (?b0, ?s0))"
    unfolding re_rm_def cat_Cons cat_Nil
    by (rule ends_Concat_in [OF 1 ends_Concat_in [OF 2 ends_Concat_in [OF 3 ends_Concat_in [OF 4
          ends_Concat_in [OF 5 ends_Concat_in [OF 6 ends_Concat_in [OF 7 ends_Concat_in [OF 8
          ends_EmptyMatch_in]]]]]]]])
  then have "MatchString re_rm (pre @ ?s0)" by (rule MatchString_I)
  then show ?thesis by simp
qed

lemma dd_matches:
  assumes pre: "\<not> starts_with_word_char (rev pre)"
    and ws: "set ws \<subseteq> set perl_space_chars" "ws \<noteq> []"
    and mid: "CHR 0x0A \<notin> set mid"
  shows "MatchString re_dd (pre @ ''dd'' @ ws @ mid @ ''of=/dev/'' @ post)"
proof -
  let ?s3 = "''of=/dev/'' @ post"
  let ?s2 = "mid @ ?s3"
  let ?s1 = "ws @ ?s2"
  let ?s0 = "''dd'' @ ?s1"
  let ?b0 = "rev pre"
  let ?b1 = "rev ''dd'' @ ?b0"
  let ?b2 = "rev ws @ ?b1"
  let ?b3 = "rev mid @ ?b2"
  let ?b4 = "rev ''of=/dev/'' @ ?b3"
  from pre have 1: "(?b0, ?s0) \<in> set (ends WordBoundary (?b0, ?s0))" by simp
  have 2: "(?b1, ?s1) \<in> set (ends (lits ''dd'') (?b0, ?s0))" by (rule ends_lits_in)
  have 3: "(?b2, ?s2) \<in> set (ends (Plus perl_space) (?b1, ?s1))"
    using ws by (rule ends_perl_space_plus_in)
  have 4: "(?b3, ?s3) \<in> set (ends (Star AnyCharNotNL) (?b2, ?s2))"
    using mid by (rule ends_Star_any_in)
  have 5: "(?b4, post) \<in> set (ends (lits ''of=/dev/'') (?b3, ?s3))" by (rule ends_lits_in)
  have "(?b4, post) \<in> set (ends re_dd (?b0, ?s0))"
    unfolding re_dd_def cat_Cons cat_Nil
    by (rule ends_Concat_in [OF 1 ends_Concat_in [OF 2 ends_Concat_in [OF 3 ends_Concat_in [OF 4
          ends_Concat_in [OF 5 ends_EmptyMatch_in]]]]])
  then show ?thesis by (rule MatchString_I)
qed

lemma redirect_matches:
  assumes ws: "set ws \<subseteq> set perl_space_chars" and c: "c \<in> set lower_chars"
  shows "MatchString re_redirect (pre @ ''>'' @ ws @ ''/dev/sd'' @ [c] @ post)"
proof -
  let ?s3 = "[c] @ post"
  let ?s2 = "''/dev/sd'' @ ?s3"
  let ?s1 = "ws @ ?s2"
  let ?s0 = "''>'' @ ?s1"
  let ?b0 = "rev pre"
  let ?b1 = "rev ''>'' @ ?b0"
  let ?b2 = "rev ws @ ?b1"
  let ?b3 = "rev ''/dev/sd'' @ ?b2"
  let ?b4 = "c # ?b3"
  have 1: "(?b1, ?s1) \<in> set (ends (lits ''>'') (?b0, ?s0))" by (rule ends_lits_in)
  have 2: "(?b2, ?s2) \<in> set (ends (Star perl_space) (?b1, ?s1))"
    using ws by (rule ends_perl_space_star_in)
  have 3: "(?b3, ?s3) \<in> set (ends (lits ''/dev/sd'') (?b2, ?s2))" by (rule ends_lits_in)
  have 4: "(?b4, post) \<in> set (ends (CharClass lower_chars) (?b3, ?s3))" using c by simp
  have "(?b4, post) \<in> set (ends re_redirect (?b0, ?s0))"
    unfolding re_redirect_def cat_Cons cat_Nil
    by (rule ends_Concat_in [OF 1 ends_Concat_in [OF 2 ends_Concat_in [OF 3 ends_Concat_in [OF 4
          ends_EmptyMatch_in]]]])
  then show ?thesis by (rule MatchString_I)
qed

lemma forkbomb_tail_matches: "MatchString re_forkbomb (pre @ '':& };:'' @ post)"
proof -
  have "(rev '':& };:'' @ rev pre, post) \<in> set (ends (lits '':& };:'') (rev pre, '':& };:'' @ post))"
    by (rule ends_lits_in)
  then have "(rev '':& };:'' @ rev pre, post) \<in> set (ends re_forkbomb (rev pre, '':& };:'' @ post))"
    unfolding re_forkbomb_def ends.simps(11) set_append Un_iff by (rule disjI2)
  then show ?thesis by (rule MatchString_I)
qed

lemma forkbomb_matches: "MatchString re_forkbomb (pre @ '':(){ :|:& };:'' @ post)"
  using forkbomb_tail_matches [of "pre @ '':(){ :|''" post] by simp

lemma ends_verbs_in:
  assumes "v \<in> set service_verbs"
  shows "(rev v @ prev, post) \<in> set (ends
     (Capture (alts (lits ''start'') [lits ''stop'', lits ''disable'', lits ''enable'', lits ''mask'']))
     (prev, v @ post))"
proof -
  have "(rev v @ prev, post) \<in> set (ends (lits v) (prev, v @ post))" by (rule ends_lits_in)
  moreover from assms have "v = ''start'' \<or> v = ''stop'' \<or> v = ''disable'' \<or> v = ''enable'' \<or> v = ''mask''"
    by (simp add: service_verbs_def)
  ultimately show ?thesis
    unfolding alts_def foldl.simps ends.simps(7) ends.simps(11) set_append Un_iff by blast
qed

lemma systemctl_matches:
  assumes pre: "\<not> starts_with_word_char (rev pre)"
    and ws: "set ws \<subseteq> set perl_space_chars" "ws \<noteq> []"
    and v: "v \<in> set service_verbs"
    and post: "\<not> starts_with_word_char post"
  shows "MatchString re_systemctl (pre @ ''systemctl'' @ ws @ v @ post)"
proof -
  let ?s2 = "v @ post"
  let ?s1 = "ws @ ?s2"
  let ?s0 = "''systemctl'' @ ?s1"
  let ?b0 = "rev pre"
  let ?b1 = "rev ''systemctl'' @ ?b0"
  let ?b2 = "rev ws @ ?b1"
  let ?b3 = "rev v @ ?b2"
  from pre have 1: "(?b0, ?s0) \<in> set (ends WordBoundary (?b0, ?s0))" by simp
  have 2: "(?b1, ?s1) \<in> set (ends (lits ''systemctl'') (?b0, ?s0))" by (rule ends_lits_in)
  have 3: "(?b2, ?s2) \<in> set (ends (Plus perl_space) (?b1, ?s1))"
    using ws by (rule ends_perl_space_plus_in)
  have 4: "(?b3, post) \<in> set (ends
     (Capture (alts (lits ''start'') [lits ''stop'', lits ''disable'', lits ''enable'', lits ''mask'']))
     (?b2, ?s2))"
    using v by (rule ends_verbs_in)
  from v have "starts_with_word_char (rev v @ ?b2)"
    by (auto simp: service_verbs_def)
  with post have 5: "(?b3, post) \<in> set (ends WordBoundary (?b3, post))" by simp
  have "(?b3, post) \<in> set (ends re_systemctl (?b0, ?s0))"
    unfolding re_systemctl_def cat_Cons cat_Nil
    by (rule ends_Concat_in [OF 1 ends_Concat_in [OF 2 ends_Concat_in [OF 3 ends_Concat_in [OF 4
          ends_Concat_in [OF 5 ends_EmptyMatch_in]]]]])
  then show ?thesis by (rule MatchString_I)
qed

lemma not_MatchString_missing: "needs re c \<Longrightarrow> c \<notin> set s \<Longrightarrow> \<not> MatchString re s"
  using MatchString_needs by blast

lemma needs_patterns:
  "needs re_rm (CHR ''m'')"
  "needs re_mkfs (CHR ''m'')" "needs re_mkfs (CHR ''k'')"
  "needs re_dd (CHR ''d'')"
  "needs re_redirect (CHR ''>'')"
  "needs re_forkbomb (CHR '':'')"
  "needs re_shutdown (CHR ''d'')"
  "needs re_reboot (CHR ''b'')"
  "needs re_systemctl (CHR ''m'')" "needs re_systemctl (CHR ''y'')"
  by (simp_all add: re_rm_def re_mkfs_def re_dd_def re_redirect_def re_forkbomb_def
      re_shutdown_def re_reboot_def re_systemctl_def)

lemma fst_isDenied_loop:
  "fst (isDenied_loop pats s) \<longleftrightarrow> list_ex (\<lambda>p. MatchString (snd p) s) pats"
  by (induction pats s rule: isDenied_loop.induct) simp_all

lemma isDenied_loop_False: "\<not> fst (isDenied_loop pats s) \<Longrightarrow> isDenied_loop pats s = (False, [])"
  by (induction pats s rule: isDenied_loop.induct) (simp_all split: if_splits)

lemma isDenied_loop_True:
  "fst (isDenied_loop pats s) \<Longrightarrow>
     \<exists>re. (snd (isDenied_loop pats s), re) \<in> set pats \<and> MatchString re s"
  by (induction pats s rule: isDenied_loop.induct) (auto split: if_splits)

lemma isDenied_allowed:
  assumes "set s \<inter> set ''md>:b'' = {}"
  shows "isDenied s = (False, [])"
proof -
  from assms have m: "CHR ''m'' \<notin> set s" and d: "CHR ''d'' \<notin> set s"
    and gt: "CHR ''>'' \<notin> set s" and colon: "CHR '':'' \<notin> set s" and b: "CHR ''b'' \<notin> set s"
    by auto
  have "\<not> MatchString re_rm s" by (rule not_MatchString_missing [OF needs_patterns(1) m])
  moreover have "\<not> MatchString re_mkfs s" by (rule not_MatchString_missing [OF needs_patterns(2) m])
  moreover have "\<not> MatchString re_dd s" by (rule not_MatchString_missing [OF needs_patterns(4) d])
  moreover have "\<not> MatchString re_redirect s" by (rule not_MatchString_missing [OF needs_patterns(5) gt])
  moreover have "\<not> MatchString re_forkbomb s" by (rule not_MatchString_missing [OF needs_patterns(6) colon])
  moreover have "\<not> MatchString re_shutdown s" by (rule not_MatchString_missing [OF needs_patterns(7) d])
  moreover have "\<not> MatchString re_reboot s" by (rule not_MatchString_missing [OF needs_patterns(8) b])
  moreover have "\<not> MatchString re_systemctl s" by (rule not_MatchString_missing [OF needs_patterns(9) m])
  ultimately show ?thesis by (simp add: isDenied_def defaultDenyPatterns_def)
qed

lemma rm_match_ends_line:
  assumes "MatchString re_rm s"
  shows "s \<noteq> [] \<and> last s \<in> set (CHR ''/'' # perl_space_chars)"
proof -
  from assms obtain pre post where s: "s = pre @ post" and ne: "ends re_rm (rev pre, post) \<noteq> []"
    unfolding MatchString_iff by blast
  from ne obtain q where q: "q \<in> set (ends re_rm (rev pre, post))"
    by (cases "ends re_rm (rev pre, post)") auto
  from ends_consumes [OF q] obtain w where w: "consumes (rev pre, post) w q" by blast
  from q obtain m1 where "q \<in> set (ends (cat [lits ''rm'', Plus perl_space, lits ''-rf'',
      Plus perl_space, lits ''/'', Star perl_space, EndText]) m1)"
    unfolding re_rm_def cat_Cons by (rule ends_Concat_cases)
  then obtain m2 where "q \<in> set (ends (cat [Plus perl_space, lits ''-rf'',
      Plus perl_space, lits ''/'', Star perl_space, EndText]) m2)"
    unfolding cat_Cons by (rule ends_Concat_cases)
  then obtain m3 where "q \<in> set (ends (cat [lits ''-rf'',
      Plus perl_space, lits ''/'', Star perl_space, EndText]) m3)"
    unfolding cat_Cons by (rule ends_Concat_cases)
  then obtain m4 where "q \<in> set (ends (cat [Plus perl_space, lits ''/'', Star perl_space, EndText]) m4)"
    unfolding cat_Cons by (rule ends_Concat_cases)
  then obtain m5 where "q \<in> set (ends (cat [lits ''/'', Star perl_space, EndText]) m5)"
    unfolding cat_Cons by (rule ends_Concat_cases)
  then obtain m6 where m6: "m6 \<in> set (ends (lits ''/'') m5)"
    and q6: "q \<in> set (ends (cat [Star perl_space, EndText]) m6)"
    unfolding cat_Cons by (rule ends_Concat_cases)
  from q6 obtain m7 where m7: "m7 \<in> set (ends (Star perl_space) m6)"
    and q7: "q \<in> set (ends (cat [EndText]) m7)"
    unfolding cat_Cons by (rule ends_Concat_cases)
  from q7 have e: "snd m7 = []" and qm: "q = m7" by (auto split: if_splits)
  from m6 have c6: "consumes m5 ''/'' m6" by (rule ends_lits_consumes)
  from m7 obtain ws where ws: "set ws \<subseteq> set perl_space_chars" and c7: "consumes m6 ws m7"
    unfolding perl_space_def using ends_Star_class_consumes by blast
  from c6 c7 have "fst q = rev ws @ CHR ''/'' # fst m5" by (simp add: consumes_def qm)
  moreover from w e qm s have "fst q = rev s" by (simp add: consumes_def)
  ultimately have "rev s = rev ws @ CHR ''/'' # fst m5" by simp
  then have "s = rev (fst m5) @ CHR ''/'' # ws" by (simp add: rev_swap)
  with ws show ?thesis by (cases ws rule: rev_cases) auto
qed


subsection \<open>The deny list\<close>

lemma isDenied_pattern:
  assumes "(src, re) \<in> set defaultDenyPatterns" and "MatchString re s"
  shows "fst (isDenied s)"
proof -
  from assms have "list_ex (\<lambda>p. MatchString (snd p) s) defaultDenyPatterns"
    unfolding list_ex_iff by force
  then show ?thesis by (simp add: isDenied_def fst_isDenied_loop)
qed

lemma isDenied_names_match:
  assumes "fst (isDenied s)"
  shows "\<exists>re. (snd (isDenied s), re) \<in> set defaultDenyPatterns \<and> MatchString re s"
  using assms isDenied_loop_True [of defaultDenyPatterns s] by (simp add: isDenied_def)

lemma isDenied_rm:
  "MatchString re_rm s \<Longrightarrow> isDenied s = (True, fst (defaultDenyPatterns ! 0))"
  by (simp add: isDenied_def defaultDenyPatterns_def)

lemma deny_patterns_mem:
  "(fst (defaultDenyPatterns ! 1), re_mkfs) \<in> set defaultDenyPatterns"
  "(fst (defaultDenyPatterns ! 2), re_dd) \<in> set defaultDenyPatterns"
  "(fst (defaultDenyPatterns ! 3), re_redirect) \<in> set defaultDenyPatterns"
  "(fst (defaultDenyPatterns ! 4), re_forkbomb) \<in> set defaultDenyPatterns"
  "(fst (defaultDenyPatterns ! 5), re_shutdown) \<in> set defaultDenyPatterns"
  "(fst (defaultDenyPatterns ! 6), re_reboot) \<in> set defaultDenyPatterns"
  "(fst (defaultDenyPatterns ! 7), re_systemctl) \<in> set defaultDenyPatterns"
  by (simp_all add: defaultDenyPatterns_def)

lemma RunCommand_blocked:
  assumes "Cmd inp \<noteq> []" and "fst (isDenied (fullCmd_of inp))"
  shows "RunCommandTool_Execute h inp
           = (Inl (CommandBlocked (snd (isDenied (fullCmd_of inp)))), [])"
  using assms by (cases "isDenied (fullCmd_of inp)") (simp add: RunCommandTool_Execute_def)

text \<open>
  C1. A \<^verbatim>\<open>run_command\<close> request with an executable name whose command line, the name and
  the arguments joined by single spaces as \<^verbatim>\<open>Execute\<close> assembles it, matches a deny
  pattern is refused with the policy violation that names a pattern matching the line; no
  output is returned and \<^verbatim>\<open>cmd.Run()\<close> is not called. The outcome is the same on every
  host: neither the working directory nor the environment is looked at.
\<close>

theorem run_command_denied_before_spawn:
  assumes "Cmd inp \<noteq> []"
    and "(src, re) \<in> set defaultDenyPatterns"
    and "MatchString re (fullCmd_of inp)"
  shows "(\<exists>pattern re'.
           (pattern, re') \<in> set defaultDenyPatterns \<and> MatchString re' (fullCmd_of inp)
           \<and> is_policy_violation (CommandBlocked pattern)
           \<and> (\<forall>h. RunCommandTool_Execute h inp = (Inl (CommandBlocked pattern), [])))
    \<and> (Args inp \<noteq> [] \<longrightarrow> fullCmd_of inp = Join (Cmd inp # Args inp) '' '')
    \<and> (Args inp = [] \<longrightarrow> fullCmd_of inp = Cmd inp @ '' '')"
proof -
  from assms(2,3) have denied: "fst (isDenied (fullCmd_of inp))" by (rule isDenied_pattern)
  from isDenied_names_match [OF denied] obtain re'
    where m: "(snd (isDenied (fullCmd_of inp)), re') \<in> set defaultDenyPatterns"
      "MatchString re' (fullCmd_of inp)" by blast
  from assms(1) denied have "RunCommandTool_Execute h inp
      = (Inl (CommandBlocked (snd (isDenied (fullCmd_of inp)))), [])" for h
    by (rule RunCommand_blocked)
  with m have 1: "\<exists>pattern re'.
           (pattern, re') \<in> set defaultDenyPatterns \<and> MatchString re' (fullCmd_of inp)
           \<and> is_policy_violation (CommandBlocked pattern)
           \<and> (\<forall>h. RunCommandTool_Execute h inp = (Inl (CommandBlocked pattern), []))"
    by (intro exI [of _ "snd (isDenied (fullCmd_of inp))"] exI [of _ re']) simp
  have 2: "fullCmd_of inp = Join (Cmd inp # Args inp) '' ''" if "Args inp \<noteq> []"
    using that by (cases "Args inp") (simp_all add: fullCmd_of_def)
  have 3: "fullCmd_of inp = Cmd inp @ '' ''" if "Args inp = []"
    using that by (simp add: fullCmd_of_def)
  from 1 2 3 show ?thesis by blast
qed

theorem run_command_denied_before_spawn_witness:
  "RunCommandTool_Execute
     \<lparr>EnvTable = [], AbsPath = (\<lambda>p. None), IsDir = (\<lambda>p. False), LookPath = (\<lambda>n. None),
      GOOS = ''linux'',
      RunCmd = (\<lambda>c. \<lparr>DeadlineExceeded = False, RunErr = None, StdoutBytes = [],
                       StderrBytes = [], ElapsedMs = 0\<rparr>)\<rparr>
     \<lparr>Cwd = ''/nowhere'', EnvOverrides = [], TimeoutMs = 0, Cmd = ''rm'', Args = [''-rf'', ''/'']\<rparr>
   = (Inl (CommandBlocked (bs # ''brm'' @ bs # ''s+-rf'' @ bs # ''s+/'' @ bs # ''s*$'')), [])
   \<and> fullCmd_of \<lparr>Cwd = ''/nowhere'', EnvOverrides = [], TimeoutMs = 0, Cmd = ''rm'',
                  Args = [''-rf'', ''/'']\<rparr> = ''rm -rf /''"
proof -
  let ?h = "\<lparr>EnvTable = [], AbsPath = (\<lambda>p. None), IsDir = (\<lambda>p. False),
             LookPath = (\<lambda>n. None), GOOS = ''linux'',
             RunCmd = (\<lambda>c. \<lparr>DeadlineExceeded = False, RunErr = None, StdoutBytes = [],
                              StderrBytes = [], ElapsedMs = 0\<rparr>)\<rparr>"
  let ?inp = "\<lparr>Cwd = ''/nowhere'', EnvOverrides = [], TimeoutMs = 0, Cmd = ''rm'',
               Args = [''-rf'', ''/'']\<rparr>"
  have line: "fullCmd_of ?inp = ''rm -rf /''" by (simp add: fullCmd_of_def)
  have "MatchString re_rm ([] @ ''rm'' @ '' '' @ ''-rf'' @ '' '' @ ''/'' @ [])"
    by (rule rm_matches) (simp_all add: perl_space_chars_def)
  then have m: "MatchString re_rm (fullCmd_of ?inp)" by (simp add: line)
  have mem: "(fst (defaultDenyPatterns ! 0), re_rm) \<in> set defaultDenyPatterns"
    by (simp add: defaultDenyPatterns_def)
  have name: "Cmd ?inp \<noteq> []" by simp
  from run_command_denied_before_spawn [OF name mem m] obtain pattern
    where ex: "\<forall>h. RunCommandTool_Execute h ?inp = (Inl (CommandBlocked pattern), [])" by blast
  from m have "isDenied (fullCmd_of ?inp) = (True, fst (defaultDenyPatterns ! 0))"
    by (rule isDenied_rm)
  with RunCommand_blocked [OF name, of ?h]
  have "RunCommandTool_Execute ?h ?inp
      = (Inl (CommandBlocked (fst (defaultDenyPatterns ! 0))), [])"
    by simp
  with ex have "pattern = fst (defaultDenyPatterns ! 0)" by simp
  then have "pattern = bs # ''brm'' @ bs # ''s+-rf'' @ bs # ''s+/'' @ bs # ''s*$''"
    by (simp add: defaultDenyPatterns_def)
  with ex line show ?thesis by simp
qed

text \<open>
  C2, as the code has it. The deny list refuses a line in which one of the idioms is
  spelled the way its pattern spells it:
  \<^item> a line that ends, white space aside, with \<^verbatim>\<open>rm\<close>, \<^verbatim>\<open>-rf\<close> and \<^verbatim>\<open>/\<close> separated by white
    space, \<^verbatim>\<open>rm\<close> not preceded by a word character; and the rule for the recursive delete
    matches no line whose last byte is neither \<^verbatim>\<open>/\<close> nor white space;
  \<^item> a line that holds the word \<^verbatim>\<open>mkfs\<close>, \<^verbatim>\<open>shutdown\<close> or \<^verbatim>\<open>reboot\<close>;
  \<^item> a line that holds \<^verbatim>\<open>dd\<close>, not preceded by a word character, then white space and,
    later on the same line, \<^verbatim>\<open>of=/dev/\<close>;
  \<^item> a line that holds \<^verbatim>\<open>>\<close>, optional white space and \<^verbatim>\<open>/dev/sd\<close> with a lower-case
    letter;
  \<^item> every line that holds the fork bomb \<^verbatim>\<open>:(){ :|:& };:\<close>;
  \<^item> every line that holds the word \<^verbatim>\<open>systemctl\<close>, white space and one of the words
    \<^verbatim>\<open>start\<close>, \<^verbatim>\<open>stop\<close>, \<^verbatim>\<open>disable\<close>, \<^verbatim>\<open>enable\<close>, \<^verbatim>\<open>mask\<close>.
\<close>

theorem deny_rules_block_spelled_idioms:
  "(\<not> starts_with_word_char (rev pre) \<and> ws1 \<noteq> [] \<and> set ws1 \<subseteq> set perl_space_chars
      \<and> ws2 \<noteq> [] \<and> set ws2 \<subseteq> set perl_space_chars \<and> set ws3 \<subseteq> set perl_space_chars
    \<longrightarrow> fst (isDenied (pre @ ''rm'' @ ws1 @ ''-rf'' @ ws2 @ ''/'' @ ws3)))
   \<and> (MatchString re_rm line \<longrightarrow> line \<noteq> [] \<and> last line \<in> set (CHR ''/'' # perl_space_chars))
   \<and> (\<not> starts_with_word_char (rev pre) \<and> \<not> starts_with_word_char post
    \<longrightarrow> fst (isDenied (pre @ ''mkfs'' @ post)) \<and> fst (isDenied (pre @ ''shutdown'' @ post))
        \<and> fst (isDenied (pre @ ''reboot'' @ post)))
   \<and> (\<not> starts_with_word_char (rev pre) \<and> ws1 \<noteq> [] \<and> set ws1 \<subseteq> set perl_space_chars
      \<and> CHR 0x0A \<notin> set mid
    \<longrightarrow> fst (isDenied (pre @ ''dd'' @ ws1 @ mid @ ''of=/dev/'' @ post)))
   \<and> (set ws3 \<subseteq> set perl_space_chars \<and> c \<in> set lower_chars
    \<longrightarrow> fst (isDenied (pre @ ''>'' @ ws3 @ ''/dev/sd'' @ [c] @ post)))
   \<and> fst (isDenied (pre @ '':(){ :|:& };:'' @ post))
   \<and> (\<not> starts_with_word_char (rev pre) \<and> ws1 \<noteq> [] \<and> set ws1 \<subseteq> set perl_space_chars
      \<and> v \<in> set service_verbs \<and> \<not> starts_with_word_char post
    \<longrightarrow> fst (isDenied (pre @ ''systemctl'' @ ws1 @ v @ post)))"
proof (intro conjI impI)
  assume "\<not> starts_with_word_char (rev pre) \<and> ws1 \<noteq> [] \<and> set ws1 \<subseteq> set perl_space_chars
      \<and> ws2 \<noteq> [] \<and> set ws2 \<subseteq> set perl_space_chars \<and> set ws3 \<subseteq> set perl_space_chars"
  then have "MatchString re_rm (pre @ ''rm'' @ ws1 @ ''-rf'' @ ws2 @ ''/'' @ ws3)"
    by (intro rm_matches) simp_all
  then show "fst (isDenied (pre @ ''rm'' @ ws1 @ ''-rf'' @ ws2 @ ''/'' @ ws3))"
    by (simp add: isDenied_rm)
next
  assume "MatchString re_rm line"
  then show "line \<noteq> []" and "last line \<in> set (CHR ''/'' # perl_space_chars)"
    using rm_match_ends_line by blast+
next
  assume a: "\<not> starts_with_word_char (rev pre) \<and> \<not> starts_with_word_char post"
  then have "MatchString re_mkfs (pre @ ''mkfs'' @ post)" by (intro mkfs_matches) simp_all
  then show "fst (isDenied (pre @ ''mkfs'' @ post))"
    by (rule isDenied_pattern [OF deny_patterns_mem(1)])
  from a have "MatchString re_shutdown (pre @ ''shutdown'' @ post)"
    by (intro shutdown_matches) simp_all
  then show "fst (isDenied (pre @ ''shutdown'' @ post))"
    by (rule isDenied_pattern [OF deny_patterns_mem(5)])
  from a have "MatchString re_reboot (pre @ ''reboot'' @ post)"
    by (intro reboot_matches) simp_all
  then show "fst (isDenied (pre @ ''reboot'' @ post))"
    by (rule isDenied_pattern [OF deny_patterns_mem(6)])
next
  assume "\<not> starts_with_word_char (rev pre) \<and> ws1 \<noteq> [] \<and> set ws1 \<subseteq> set perl_space_chars
      \<and> CHR 0x0A \<notin> set mid"
  then have "MatchString re_dd (pre @ ''dd'' @ ws1 @ mid @ ''of=/dev/'' @ post)"
    by (intro dd_matches) simp_all
  then show "fst (isDenied (pre @ ''dd'' @ ws1 @ mid @ ''of=/dev/'' @ post))"
    by (rule isDenied_pattern [OF deny_patterns_mem(2)])
next
  assume "set ws3 \<subseteq> set perl_space_chars \<and> c \<in> set lower_chars"
  then have "MatchString re_redirect (pre @ ''>'' @ ws3 @ ''/dev/sd'' @ [c] @ post)"
    by (intro redirect_matches) simp_all
  then show "fst (isDenied (pre @ ''>'' @ ws3 @ ''/dev/sd'' @ [c] @ post))"
    by (rule isDenied_pattern [OF deny_patterns_mem(3)])
next
  have "MatchString re_forkbomb (pre @ '':(){ :|:& };:'' @ post)" by (rule forkbomb_matches)
  then show "fst (isDenied (pre @ '':(){ :|:& };:'' @ post))"
    by (rule isDenied_pattern [OF deny_patterns_mem(4)])
next
  assume "\<not> starts_with_word_char (rev pre) \<and> ws1 \<noteq> [] \<and> set ws1 \<subseteq> set perl_space_chars
      \<and> v \<in> set service_verbs \<and> \<not> starts_with_word_char post"
  then have "MatchString re_systemctl (pre @ ''systemctl'' @ ws1 @ v @ post)"
    by (intro systemctl_matches) simp_all
  then show "fst (isDenied (pre @ ''systemctl'' @ ws1 @ v @ post))"
    by (rule isDenied_pattern [OF deny_patterns_mem(7)])
qed

theorem deny_rules_block_spelled_idioms_witness:
  "fst (isDenied ''sudo rm  -rf / '')
   \<and> last ''sudo rm  -rf / '' \<in> set (CHR ''/'' # perl_space_chars)
   \<and> fst (isDenied ''mkfs.ext4 /dev/sda1'')
   \<and> fst (isDenied ''shutdown -h now'')
   \<and> fst (isDenied ''sudo reboot'')
   \<and> fst (isDenied ''dd if=/dev/zero of=/dev/sda'')
   \<and> fst (isDenied ''echo x > /dev/sda'')
   \<and> fst (isDenied '':(){ :|:& };:'')
   \<and> fst (isDenied ''systemctl stop nginx'')"
proof -
  note blocked = deny_rules_block_spelled_idioms
  have sp: "set '' '' \<subseteq> set perl_space_chars" "set ''  '' \<subseteq> set perl_space_chars"
    "set [] \<subseteq> set perl_space_chars"
    by (simp_all add: perl_space_chars_def)
  have w: "\<not> starts_with_word_char (rev ''sudo '')" "\<not> starts_with_word_char (rev [])"
    "\<not> starts_with_word_char ''.ext4 /dev/sda1''" "\<not> starts_with_word_char '' -h now''"
    "\<not> starts_with_word_char []" "\<not> starts_with_word_char '' nginx''"
    by (simp_all add: is_word_char_def)
  have 1: "fst (isDenied (''sudo '' @ ''rm'' @ ''  '' @ ''-rf'' @ '' '' @ ''/'' @ '' ''))"
    using blocked [where pre = "''sudo ''" and ?ws1.0 = "''  ''" and ?ws2.0 = "'' ''" and ?ws3.0 = "'' ''"]
      sp w by blast
  have "MatchString re_rm (''sudo '' @ ''rm'' @ ''  '' @ ''-rf'' @ '' '' @ ''/'' @ '' '')"
    by (rule rm_matches) (use sp w in simp_all)
  then have 2: "last (''sudo '' @ ''rm'' @ ''  '' @ ''-rf'' @ '' '' @ ''/'' @ '' '')
      \<in> set (CHR ''/'' # perl_space_chars)"
    using blocked [where line = "''sudo '' @ ''rm'' @ ''  '' @ ''-rf'' @ '' '' @ ''/'' @ '' ''"]
    by blast
  have 3: "fst (isDenied ([] @ ''mkfs'' @ ''.ext4 /dev/sda1''))"
    using blocked [where pre = "[]" and post = "''.ext4 /dev/sda1''"] w by blast
  have 4: "fst (isDenied ([] @ ''shutdown'' @ '' -h now''))"
    using blocked [where pre = "[]" and post = "'' -h now''"] w by blast
  have 5: "fst (isDenied (''sudo '' @ ''reboot'' @ []))"
    using blocked [where pre = "''sudo ''" and post = "[]"] w by blast
  have nl: "CHR 0x0A \<notin> set ''if=/dev/zero ''" by simp
  have 6: "fst (isDenied ([] @ ''dd'' @ '' '' @ ''if=/dev/zero '' @ ''of=/dev/'' @ ''sda''))"
    using blocked [where pre = "[]" and ?ws1.0 = "'' ''" and mid = "''if=/dev/zero ''" and post = "''sda''"]
      sp w nl by blast
  have lc: "CHR ''a'' \<in> set lower_chars" by (simp add: lower_chars_def)
  have 7: "fst (isDenied (''echo x '' @ ''>'' @ '' '' @ ''/dev/sd'' @ [CHR ''a''] @ []))"
    using blocked [where pre = "''echo x ''" and ?ws3.0 = "'' ''" and c = "CHR ''a''" and post = "[]"]
      sp lc by blast
  have 8: "fst (isDenied ([] @ '':(){ :|:& };:'' @ []))"
    using blocked [where pre = "[]" and post = "[]"] by blast
  have sv: "''stop'' \<in> set service_verbs" by (simp add: service_verbs_def)
  have 9: "fst (isDenied ([] @ ''systemctl'' @ '' '' @ ''stop'' @ '' nginx''))"
    using blocked [where pre = "[]" and ?ws1.0 = "'' ''" and v = "''stop''" and post = "'' nginx''"]
      sp w sv by blast
  from 1 2 3 4 5 6 7 8 9 show ?thesis by simp
qed

theorem root_delete_with_trailing_text_not_denied:
  "\<not> fst (isDenied ''rm -rf / --no-preserve-root'')"
proof -
  let ?s = "''rm -rf / --no-preserve-root''"
  have "\<not> MatchString re_rm ?s"
    using rm_match_ends_line [of ?s] by (auto simp: perl_space_chars_def)
  moreover have "\<not> MatchString re_mkfs ?s"
    by (rule not_MatchString_missing [OF needs_patterns(3)]) simp
  moreover have "\<not> MatchString re_dd ?s"
    by (rule not_MatchString_missing [OF needs_patterns(4)]) simp
  moreover have "\<not> MatchString re_redirect ?s"
    by (rule not_MatchString_missing [OF needs_patterns(5)]) simp
  moreover have "\<not> MatchString re_forkbomb ?s"
    by (rule not_MatchString_missing [OF needs_patterns(6)]) simp
  moreover have "\<not> MatchString re_shutdown ?s"
    by (rule not_MatchString_missing [OF needs_patterns(7)]) simp
  moreover have "\<not> MatchString re_reboot ?s"
    by (rule not_MatchString_missing [OF needs_patterns(8)]) simp
  moreover have "\<not> MatchString re_systemctl ?s"
    by (rule not_MatchString_missing [OF needs_patterns(10)]) simp
  ultimately show ?thesis by (simp add: isDenied_def defaultDenyPatterns_def)
qed

subsection \<open>Running a command\<close>

lemma RunCommand_spawned:
  assumes "snd (RunCommandTool_Execute h inp) = [cmd]"
  shows "cmd = \<lparr>CmdName = Cmd inp, CmdArgs = Args inp, CmdDir = CmdDir cmd,
                 CmdEnv = command_env h (EnvOverrides inp),
                 CmdTimeout = timeout_of (TimeoutMs inp)\<rparr>"
    and "fst (RunCommandTool_Execute h inp)
           = (case exit_status (RunCmd h cmd) of
                Inl e \<Rightarrow> Inl e
              | Inr status \<Rightarrow> Inr (capped_result (RunCmd h cmd) status))"
  using assms
  by (auto simp: RunCommandTool_Execute_def Let_def
      split: if_splits prod.splits bool.splits sum.splits)

lemma RunCommand_output:
  assumes "RunCommandTool_Execute h inp = (Inr out, cmds)"
  shows "\<exists>cmd status. cmds = [cmd] \<and> exit_status (RunCmd h cmd) = Inr status
           \<and> out = capped_result (RunCmd h cmd) status"
  using assms
  by (auto simp: RunCommandTool_Execute_def Let_def
      split: if_splits prod.splits bool.splits sum.splits)

lemma RunScript_spawned:
  assumes "snd (RunScriptTool_Execute h inp) = [cmd]"
  shows "cmd = \<lparr>CmdName = fst (resolveShell h (Shell inp)),
                 CmdArgs = [snd (resolveShell h (Shell inp)), Script inp], CmdDir = CmdDir cmd,
                 CmdEnv = command_env h (EnvOverrides inp),
                 CmdTimeout = timeout_of (TimeoutMs inp)\<rparr>"
    and "fst (RunScriptTool_Execute h inp)
           = (case exit_status (RunCmd h cmd) of
                Inl e \<Rightarrow> Inl e
              | Inr status \<Rightarrow>
                  Inr (RunCommandOutput.extend (capped_result (RunCmd h cmd) status)
                         \<lparr>ShellUsed = fst (resolveShell h (Shell inp))\<rparr>))"
  using assms
  by (auto simp: RunScriptTool_Execute_def Let_def
      split: if_splits prod.splits bool.splits sum.splits option.splits)

lemma RunScript_output:
  assumes "RunScriptTool_Execute h inp = (Inr out, cmds)"
  shows "\<exists>cmd status. cmds = [cmd] \<and> exit_status (RunCmd h cmd) = Inr status
           \<and> out = RunCommandOutput.extend (capped_result (RunCmd h cmd) status)
                      \<lparr>ShellUsed = fst (resolveShell h (Shell inp))\<rparr>"
  using assms
  by (auto simp: RunScriptTool_Execute_def Let_def
      split: if_splits prod.splits bool.splits sum.splits option.splits)

lemma capped_result_fields:
  "ExitCode (capped_result r status) = snd status"
  "TimedOut (capped_result r status) = fst status"
  "Stdout (capped_result r status) = fst (capOutput (StdoutBytes r))"
  "Stderr (capped_result r status) = fst (capOutput (StderrBytes r))"
  "Truncated (capped_result r status)
     = (snd (capOutput (StdoutBytes r)) \<or> snd (capOutput (StderrBytes r)))"
  "DurationMs (capped_result r status) = ElapsedMs r"
  by (auto simp: capped_result_def split: prod.splits)

lemma extend_fields:
  "ExitCode (RunCommandOutput.extend out ext) = ExitCode out"
  "TimedOut (RunCommandOutput.extend out ext) = TimedOut out"
  "Stdout (RunCommandOutput.extend out ext) = Stdout out"
  "Stderr (RunCommandOutput.extend out ext) = Stderr out"
  "Truncated (RunCommandOutput.extend out ext) = Truncated out"
  "DurationMs (RunCommandOutput.extend out ext) = DurationMs out"
  "ShellUsed (RunCommandOutput.extend out \<lparr>ShellUsed = sh\<rparr>) = sh"
  by (simp_all add: RunCommandOutput.defs)


lemma exit_status_exited:
  "\<not> DeadlineExceeded r \<Longrightarrow> RunErr r = None \<Longrightarrow> exit_status r = Inr (False, 0)"
  "\<not> DeadlineExceeded r \<Longrightarrow> RunErr r = Some (ExitError code) \<Longrightarrow> exit_status r = Inr (False, code)"
  by (simp_all add: exit_status_def)

lemma example_isDenied:
  "isDenied ''sleep 5'' = (False, [])" "isDenied ''false '' = (False, [])"
  "isDenied ''yes '' = (False, [])" "isDenied ''echo hi'' = (False, [])"
  "isDenied ''sleep 5 '' = (False, [])" "isDenied ''echo hi '' = (False, [])"
  "isDenied ''false'' = (False, [])" "isDenied ''yes'' = (False, [])"
  by (rule isDenied_allowed, simp)+

lemma example_TrimSpace:
  "TrimSpace ''sleep 5'' = ''sleep 5''" "TrimSpace ''false'' = ''false''"
  "TrimSpace ''yes'' = ''yes''" "TrimSpace ''echo hi'' = ''echo hi''"
  by (simp_all add: TrimSpace_def space_runes_def ascii_space_def)

lemma example_resolveShell: "resolveShell example_host [] = (''/usr/bin/zsh'', ''-c'')"
  by (simp add: resolveShell_def requested_shell_def default_shell_def ToLower_def
      example_host_def look_def)

lemma example_host_fields:
  "EnvTable example_host = [(''HOME'', ''/root''), (''A'', ''1''), (''X'', ''0''),
                            (''API_KEY'', ''abcdef1234''), (''TOKEN'', ''****'')]"
  "AbsPath example_host p = Some p"
  "IsDir example_host p = (p = ''/tmp'')"
  "GOOS example_host = ''linux''"
  "RunCmd example_host = example_run"
  by (simp_all add: example_host_def)

lemmas example_defs =
  example_host_fields example_command_def example_script_def example_run_def example_program_def
  RunCommandTool_Execute_def RunScriptTool_Execute_def fullCmd_of_def working_dir_def
  command_env_def exit_status_def HasPrefix_def skipped_line_def

lemma example_command_runs:
  "RunCommandTool_Execute example_host (example_command ''sleep'' [''5''])
     = (Inr \<lparr>ExitCode = - 1, Stdout = [], Stderr = [], Truncated = False, TimedOut = True,
            DurationMs = 100\<rparr>,
        [\<lparr>CmdName = ''sleep'', CmdArgs = [''5''], CmdDir = [], CmdEnv = None,
          CmdTimeout = 30000000000\<rparr>])"
  "RunCommandTool_Execute example_host (example_command ''false'' [])
     = (Inr \<lparr>ExitCode = 1, Stdout = [], Stderr = ''no'', Truncated = False, TimedOut = False,
            DurationMs = 1\<rparr>,
        [\<lparr>CmdName = ''false'', CmdArgs = [], CmdDir = [], CmdEnv = None,
          CmdTimeout = 30000000000\<rparr>])"
  "RunCommandTool_Execute example_host (example_command ''echo'' [''hi''])
     = (Inr \<lparr>ExitCode = 0, Stdout = ''hello'', Stderr = [], Truncated = False, TimedOut = False,
            DurationMs = 2\<rparr>,
        [\<lparr>CmdName = ''echo'', CmdArgs = [''hi''], CmdDir = [], CmdEnv = None,
          CmdTimeout = 30000000000\<rparr>])"
  by (simp_all add: example_defs example_isDenied capped_result_def capOutput_def
      maxOutputBytes_def timeout_of_def defaultTimeoutMs_def)











lemma capOutput_over:
  "capOutput (replicate (Suc maxOutputBytes) c) = (replicate maxOutputBytes c, True)"
  by (simp add: capOutput_def min_def del: replicate.simps)

lemma capOutput_Nil: "capOutput [] = ([], False)"
  by (simp add: capOutput_def)

lemma example_yes_runs:
  "RunCommandTool_Execute example_host (example_command ''yes'' [])
     = (Inr \<lparr>ExitCode = 0, Stdout = replicate maxOutputBytes (CHR ''y''), Stderr = [],
            Truncated = True, TimedOut = False, DurationMs = 7\<rparr>,
        [\<lparr>CmdName = ''yes'', CmdArgs = [], CmdDir = [], CmdEnv = None,
          CmdTimeout = 30000000000\<rparr>])"
  "RunScriptTool_Execute example_host (example_script ''yes'')
     = (Inr \<lparr>ExitCode = 0, Stdout = replicate maxOutputBytes (CHR ''y''), Stderr = [],
            Truncated = True, TimedOut = False, DurationMs = 7, ShellUsed = ''/usr/bin/zsh''\<rparr>,
        [\<lparr>CmdName = ''/usr/bin/zsh'', CmdArgs = [''-c'', ''yes''], CmdDir = [],
          CmdEnv = None, CmdTimeout = 30000000000\<rparr>])"
  by (simp_all add: example_defs example_isDenied example_TrimSpace example_resolveShell
      capped_result_def capOutput_over capOutput_Nil timeout_of_def defaultTimeoutMs_def
      RunCommandOutput.defs del: replicate.simps)

text \<open>
  C6. The budget is 1 MiB. A captured byte sequence longer than the budget is cut to its
  first \<open>budget\<close> bytes and flagged; the returned text then has exactly \<open>budget\<close> bytes
  and is a prefix of the captured one. A sequence within the budget is returned whole and
  not flagged. In a result of \<^verbatim>\<open>run_command\<close> or \<^verbatim>\<open>run_script\<close> each stream is the cap of
  what its own buffer captured, and \<^verbatim>\<open>truncated\<close> is the disjunction of the two flags.
\<close>

theorem output_capped_per_stream:
  fixes inp :: RunCommandInput and sinp :: RunScriptInput
  shows "maxOutputBytes = 1048576
    \<and> (length data > maxOutputBytes
        \<longrightarrow> capOutput data = (take maxOutputBytes data, True)
            \<and> length (fst (capOutput data)) = maxOutputBytes
            \<and> prefix (fst (capOutput data)) data)
    \<and> (length data \<le> maxOutputBytes \<longrightarrow> capOutput data = (data, False))
    \<and> (RunCommandTool_Execute h inp = (Inr out, cmds)
        \<longrightarrow> (\<exists>cmd. cmds = [cmd]
              \<and> Stdout out = fst (capOutput (StdoutBytes (RunCmd h cmd)))
              \<and> Stderr out = fst (capOutput (StderrBytes (RunCmd h cmd)))
              \<and> Truncated out = (snd (capOutput (StdoutBytes (RunCmd h cmd)))
                                  \<or> snd (capOutput (StderrBytes (RunCmd h cmd))))))
    \<and> (RunScriptTool_Execute h sinp = (Inr sout, cmds)
        \<longrightarrow> (\<exists>cmd. cmds = [cmd]
              \<and> Stdout sout = fst (capOutput (StdoutBytes (RunCmd h cmd)))
              \<and> Stderr sout = fst (capOutput (StderrBytes (RunCmd h cmd)))
              \<and> Truncated sout = (snd (capOutput (StdoutBytes (RunCmd h cmd)))
                                   \<or> snd (capOutput (StderrBytes (RunCmd h cmd))))))"
proof -
  have 1: "maxOutputBytes = 1048576" by (simp add: maxOutputBytes_def)
  have 2: "capOutput data = (take maxOutputBytes data, True)
      \<and> length (fst (capOutput data)) = maxOutputBytes \<and> prefix (fst (capOutput data)) data"
    if "length data > maxOutputBytes"
    using that by (simp add: capOutput_def take_is_prefix)
  have 3: "capOutput data = (data, False)" if "length data \<le> maxOutputBytes"
    using that by (simp add: capOutput_def)
  have 4: "\<exists>cmd. cmds = [cmd]
      \<and> Stdout out = fst (capOutput (StdoutBytes (RunCmd h cmd)))
      \<and> Stderr out = fst (capOutput (StderrBytes (RunCmd h cmd)))
      \<and> Truncated out = (snd (capOutput (StdoutBytes (RunCmd h cmd)))
                          \<or> snd (capOutput (StderrBytes (RunCmd h cmd))))"
    if "RunCommandTool_Execute h inp = (Inr out, cmds)"
    using RunCommand_output [OF that] by (auto simp: capped_result_fields)
  have 5: "\<exists>cmd. cmds = [cmd]
      \<and> Stdout sout = fst (capOutput (StdoutBytes (RunCmd h cmd)))
      \<and> Stderr sout = fst (capOutput (StderrBytes (RunCmd h cmd)))
      \<and> Truncated sout = (snd (capOutput (StdoutBytes (RunCmd h cmd)))
                           \<or> snd (capOutput (StderrBytes (RunCmd h cmd))))"
    if "RunScriptTool_Execute h sinp = (Inr sout, cmds)"
    using RunScript_output [OF that] by (auto simp: capped_result_fields extend_fields)
  from 1 2 3 4 5 show ?thesis by blast
qed

theorem output_capped_per_stream_witness:
  "length (replicate (Suc maxOutputBytes) (CHR ''y'')) > maxOutputBytes
   \<and> capOutput (replicate (Suc maxOutputBytes) (CHR ''y''))
       = (replicate maxOutputBytes (CHR ''y''), True)
   \<and> length (fst (capOutput (replicate (Suc maxOutputBytes) (CHR ''y'')))) = 1048576
   \<and> capOutput ''hello'' = (''hello'', False)
   \<and> Truncated (projr (fst (RunCommandTool_Execute example_host (example_command ''yes'' []))))
   \<and> length (Stdout (projr (fst (RunCommandTool_Execute example_host
                                   (example_command ''yes'' []))))) = 1048576
   \<and> Truncated (projr (fst (RunScriptTool_Execute example_host (example_script ''yes''))))
   \<and> Stdout (projr (fst (RunCommandTool_Execute example_host (example_command ''echo'' [''hi''])))) = ''hello''"
proof -
  note c6 = output_capped_per_stream
  let ?big = "replicate (Suc maxOutputBytes) (CHR ''y'')"
  let ?yes = "\<lparr>CmdName = ''yes'', CmdArgs = [], CmdDir = [], CmdEnv = None,
               CmdTimeout = 30000000000\<rparr>"
  let ?syes = "\<lparr>CmdName = ''/usr/bin/zsh'', CmdArgs = [''-c'', ''yes''], CmdDir = [],
                CmdEnv = None, CmdTimeout = 30000000000\<rparr>"
  let ?echo = "\<lparr>CmdName = ''echo'', CmdArgs = [''hi''], CmdDir = [], CmdEnv = None,
                CmdTimeout = 30000000000\<rparr>"
  have budget: "maxOutputBytes = 1048576" using c6 by blast
  have big: "length ?big > maxOutputBytes" by (simp del: replicate.simps)
  with c6 [where data = ?big]
  have 1: "capOutput ?big = (take maxOutputBytes ?big, True)"
    and 2: "length (fst (capOutput ?big)) = maxOutputBytes" by blast+
  from 1 have cap_big: "capOutput ?big = (replicate maxOutputBytes (CHR ''y''), True)"
    by (simp add: min_def del: replicate.simps)
  have "length ''hello'' \<le> maxOutputBytes" by (simp add: budget)
  with c6 [where data = "''hello''"] have 3: "capOutput ''hello'' = (''hello'', False)" by blast
  have yes: "StdoutBytes (RunCmd example_host ?yes) = ?big"
    "StderrBytes (RunCmd example_host ?yes) = []"
    "StdoutBytes (RunCmd example_host ?syes) = ?big"
    "StderrBytes (RunCmd example_host ?syes) = []"
    "StdoutBytes (RunCmd example_host ?echo) = ''hello''"
    by (simp_all add: example_host_fields example_run_def example_program_def)
  from c6 [where h = example_host and inp = "example_command ''yes'' []"
      and out = "projr (fst (RunCommandTool_Execute example_host (example_command ''yes'' [])))"
      and cmds = "[?yes]"]
  have 4: "Truncated (projr (fst (RunCommandTool_Execute example_host (example_command ''yes'' []))))"
    and 5: "Stdout (projr (fst (RunCommandTool_Execute example_host (example_command ''yes'' []))))
        = fst (capOutput ?big)"
    by (simp_all add: example_yes_runs yes cap_big del: replicate.simps)
  from c6 [where h = example_host and sinp = "example_script ''yes''"
      and sout = "projr (fst (RunScriptTool_Execute example_host (example_script ''yes'')))"
      and cmds = "[?syes]"]
  have 6: "Truncated (projr (fst (RunScriptTool_Execute example_host (example_script ''yes''))))"
    by (simp add: example_yes_runs yes cap_big del: replicate.simps)
  from c6 [where h = example_host and inp = "example_command ''echo'' [''hi'']"
      and out = "projr (fst (RunCommandTool_Execute example_host (example_command ''echo'' [''hi''])))"
      and cmds = "[?echo]"]
  have 7: "Stdout (projr (fst (RunCommandTool_Execute example_host (example_command ''echo'' [''hi'']))))
      = ''hello''"
    by (simp add: example_command_runs yes 3)
  from big cap_big 2 3 4 5 6 7 budget show ?thesis by (simp del: replicate.simps)
qed

subsection \<open>The environment of the started process\<close>

lemma takeWhile_until: "c \<notin> set k \<Longrightarrow> takeWhile (\<lambda>x. x \<noteq> c) (k @ c # v) = k"
  by (induction k) auto

lemma dropWhile_until: "c \<notin> set k \<Longrightarrow> dropWhile (\<lambda>x. x \<noteq> c) (k @ c # v) = c # v"
  by (induction k) auto

lemma entry_of_env_line:
  assumes "CHR ''='' \<notin> set k"
  shows "entry_name (env_line (k, v)) = k" and "entry_value (env_line (k, v)) = v"
    and "CHR ''='' \<in> set (env_line (k, v))"
  using assms
  by (simp_all add: entry_name_def entry_value_def env_line_def takeWhile_until dropWhile_until)

lemma Index_until: "c \<notin> set k \<Longrightarrow> Index (k @ c # v) c = Some (length k)"
  by (induction k) auto

lemma dedup_key_env_line:
  assumes "valid_variable kv"
  shows "dedup_key False (env_line kv) = Some (fst kv)"
proof -
  obtain k v where kv: "kv = (k, v)" by (cases kv)
  with assms have k: "k \<noteq> []" "CHR ''='' \<notin> set k" by (simp_all add: valid_variable_def)
  from k(2) have "Index (k @ CHR ''='' # v) (CHR ''='') = Some (length k)" by (rule Index_until)
  with k(1) kv show ?thesis by (simp add: dedup_key_def env_line_def)
qed

lemma env_line_no_NUL: "valid_variable kv \<Longrightarrow> CHR 0x00 \<notin> set (env_line kv)"
  by (auto simp: valid_variable_def env_line_def)

lemma dedup_loop_err:
  "snd (snd (dedup_loop ci False xs (out, saw, err)))
     = (err \<or> (\<exists>kv \<in> set xs. CHR 0x00 \<in> set kv))"
proof (induction xs arbitrary: out saw err)
  case Nil
  then show ?case by simp
next
  case (Cons kv xs)
  show ?case
  proof (cases "CHR 0x00 \<in> set kv")
    case True
    then show ?thesis by (simp add: Cons.IH)
  next
    case False
    then show ?thesis by (simp add: Cons.IH split: option.splits)
  qed
qed

lemma dedup_loop_valid:
  assumes "list_all valid_variable xs"
  shows "dedup_loop False nulOK (map env_line xs) (out, saw, err)
     = (out @ map env_line (firsts xs (set saw)), rev (map fst (firsts xs (set saw))) @ saw, err)"
  using assms
proof (induction xs arbitrary: out saw)
  case Nil
  then show ?case by simp
next
  case (Cons kv xs)
  from Cons.prems have v: "valid_variable kv" and rest: "list_all valid_variable xs" by simp_all
  note IH = Cons.IH [OF rest]
  from v have key: "dedup_key False (env_line kv) = Some (fst kv)" by (rule dedup_key_env_line)
  from v have nul: "CHR 0x00 \<notin> set (env_line kv)" by (rule env_line_no_NUL)
  show ?case
  proof (cases "fst kv \<in> set saw")
    case True
    with key nul show ?thesis by (simp add: IH)
  next
    case False
    with key nul show ?thesis by (simp add: IH)
  qed
qed

lemma dedupEnvCase_valid:
  assumes "list_all valid_variable ps"
  shows "dedupEnvCase False nulOK (map env_line ps) = (map env_line (rev (firsts (rev ps) {})), False)"
proof -
  from assms have "list_all valid_variable (rev ps)" by (simp add: list_all_iff)
  from dedup_loop_valid [OF this, of nulOK "[]" "[]" False]
  show ?thesis by (simp add: dedupEnvCase_def rev_map)
qed

lemma firsts_distinct:
  "distinct (map fst xs) \<Longrightarrow> firsts xs seen = filter (\<lambda>p. fst p \<notin> seen) xs"
proof (induction xs arbitrary: seen)
  case Nil
  then show ?case by simp
next
  case (Cons kv xs)
  from Cons.prems have notin: "fst kv \<notin> fst ` set xs" and d: "distinct (map fst xs)" by simp_all
  have "filter (\<lambda>p. fst p \<notin> insert (fst kv) seen) xs = filter (\<lambda>p. fst p \<notin> seen) xs"
  proof (rule filter_cong [OF refl])
    fix p assume "p \<in> set xs"
    then have "fst p \<in> fst ` set xs" by (rule imageI)
    with notin have "fst p \<noteq> fst kv" by (cases "fst p = fst kv") simp_all
    then show "(fst p \<notin> insert (fst kv) seen) = (fst p \<notin> seen)" by simp
  qed
  with Cons.IH [OF d] show ?case by simp
qed

lemma firsts_append:
  "firsts (xs @ ys) seen = firsts xs seen @ firsts ys (seen \<union> fst ` set xs)"
proof (induction xs arbitrary: seen)
  case Nil
  then show ?case by simp
next
  case (Cons kv xs)
  show ?case
  proof (cases "fst kv \<in> seen")
    case True
    then have "seen \<union> fst ` set (kv # xs) = seen \<union> fst ` set xs" by auto
    with True show ?thesis by (simp add: Cons.IH)
  next
    case False
    have "insert (fst kv) seen \<union> fst ` set xs = seen \<union> fst ` set (kv # xs)" by auto
    with False show ?thesis by (simp add: Cons.IH)
  qed
qed

lemma kept_entries:
  assumes "distinct (map fst tbl)" and "distinct (map fst ovs)"
  shows "rev (firsts (rev (tbl @ ovs)) {}) = filter (\<lambda>p. fst p \<notin> fst ` set ovs) tbl @ ovs"
proof -
  from assms have d: "distinct (map fst (rev tbl))" "distinct (map fst (rev ovs))"
    by (simp_all add: rev_map [symmetric])
  have "firsts (rev (tbl @ ovs)) {} = firsts (rev ovs) {} @ firsts (rev tbl) (fst ` set ovs)"
    by (simp add: firsts_append)
  also have "\<dots> = rev ovs @ filter (\<lambda>p. fst p \<notin> fst ` set ovs) (rev tbl)"
    by (simp add: firsts_distinct [OF d(1)] firsts_distinct [OF d(2)])
  finally show ?thesis by (simp add: rev_filter)
qed

lemma getenv_env_lines:
  "list_all valid_variable qs \<Longrightarrow> getenv (map env_line qs) name = map_of qs name"
proof (induction qs)
  case Nil
  then show ?case by simp
next
  case (Cons kv qs)
  obtain k v where kv: "kv = (k, v)" by (cases kv)
  with Cons.prems have "CHR ''='' \<notin> set k" by (simp add: valid_variable_def)
  with Cons kv show ?case by (simp add: entry_of_env_line)
qed

lemma entry_names_env_lines:
  "list_all valid_variable qs \<Longrightarrow> map entry_name (map env_line qs) = map fst qs"
proof (induction qs)
  case Nil
  then show ?case by simp
next
  case (Cons kv qs)
  obtain k v where kv: "kv = (k, v)" by (cases kv)
  with Cons.prems have "CHR ''='' \<notin> set k" by (simp add: valid_variable_def)
  with Cons kv show ?case by (simp add: entry_of_env_line)
qed

lemma filter_env_lines:
  "list_all valid_variable qs
     \<Longrightarrow> filter (\<lambda>e. entry_name e \<notin> K) (map env_line qs) = map env_line (filter (\<lambda>p. fst p \<notin> K) qs)"
proof (induction qs)
  case Nil
  then show ?case by simp
next
  case (Cons kv qs)
  obtain k v where kv: "kv = (k, v)" by (cases kv)
  with Cons.prems have "CHR ''='' \<notin> set k" by (simp add: valid_variable_def)
  with Cons kv show ?case by (simp add: entry_of_env_line)
qed

lemma map_of_filter_keys:
  "map_of (filter (\<lambda>p. fst p \<notin> K) tbl) name = (if name \<in> K then None else map_of tbl name)"
  by (induction tbl) auto

lemma map_of_kept:
  "map_of (filter (\<lambda>p. fst p \<notin> fst ` set ovs) tbl @ ovs) name
     = (case map_of ovs name of Some v \<Rightarrow> Some v | None \<Rightarrow> map_of tbl name)"
proof (cases "map_of ovs name")
  case None
  then have "name \<notin> fst ` set ovs" by (simp add: map_of_eq_None_iff)
  with None show ?thesis by (simp add: map_add_def map_of_filter_keys split: option.splits)
next
  case (Some v)
  then have "name \<in> fst ` set ovs" by (metis map_of_eq_None_iff option.distinct(1))
  with Some show ?thesis by (simp add: map_add_def map_of_filter_keys)
qed

lemma dedup_loop_err_nulOK: "snd (snd (dedup_loop ci True xs (out, saw, err))) = err"
  by (induction xs arbitrary: out saw) (simp_all split: option.splits)

lemma dedup_loop_entries:
  assumes "nulOK \<or> (\<forall>e \<in> set xs. CHR 0x00 \<notin> set e)"
  shows "fst (dedup_loop ci nulOK xs (out, saw, err))
     = out @ first_entries (dedup_key ci) xs (set saw)"
  using assms
proof (induction xs arbitrary: out saw)
  case Nil
  then show ?case by simp
next
  case (Cons e xs)
  from Cons.prems have rest: "nulOK \<or> (\<forall>e \<in> set xs. CHR 0x00 \<notin> set e)"
    and here: "(\<not> nulOK \<and> CHR 0x00 \<in> set e) = False"
    by auto
  note IH = Cons.IH [OF rest]
  show ?case
  proof (cases "dedup_key ci e")
    case None
    have step: "dedup_loop ci nulOK (e # xs) (out, saw, err)
        = dedup_loop ci nulOK xs (if e \<noteq> [] then out @ [e] else out, saw, err)"
      by (simp only: dedup_loop.simps here None if_False option.case)
    have kept: "first_entries (dedup_key ci) (e # xs) (set saw)
        = (if e = [] then first_entries (dedup_key ci) xs (set saw)
           else e # first_entries (dedup_key ci) xs (set saw))"
      by (simp only: first_entries.simps None option.case)
    show ?thesis unfolding step kept by (cases "e = []") (simp_all add: IH)
  next
    case (Some k)
    have "dedup_loop ci nulOK (e # xs) (out, saw, err)
        = (if k \<in> set saw then dedup_loop ci nulOK xs (out, saw, err)
           else dedup_loop ci nulOK xs (out @ [e], k # saw, err))"
      by (simp only: dedup_loop.simps here Some if_False option.case)
    then show ?thesis by (cases "k \<in> set saw") (simp_all add: IH Some)
  qed
qed

lemma keys_of_simps:
  "keys_of key [] = {}"
  "key e = None \<Longrightarrow> keys_of key (e # xs) = keys_of key xs"
  "key e = Some k \<Longrightarrow> keys_of key (e # xs) = insert k (keys_of key xs)"
  "(k \<in> keys_of key xs) = list_ex (\<lambda>e. key e = Some k) xs"
  "keys_of key (rev xs) = keys_of key xs"
  by (auto simp: keys_of_def list_ex_iff)

lemma first_entries_append:
  "first_entries key (xs @ ys) seen
     = first_entries key xs seen @ first_entries key ys (seen \<union> keys_of key xs)"
proof (induction xs arbitrary: seen)
  case Nil
  then show ?case by (simp add: keys_of_simps(1))
next
  case (Cons e xs)
  show ?case
  proof (cases "key e")
    case None
    then show ?thesis by (simp add: Cons.IH keys_of_simps(2))
  next
    case (Some k)
    show ?thesis
    proof (cases "k \<in> seen")
      case True
      then have "seen \<union> insert k (keys_of key xs) = seen \<union> keys_of key xs" by blast
      with Some True show ?thesis by (simp add: Cons.IH keys_of_simps(3))
    next
      case False
      have "insert k seen \<union> keys_of key xs = seen \<union> insert k (keys_of key xs)" by blast
      with Some False show ?thesis by (simp add: Cons.IH keys_of_simps(3))
    qed
  qed
qed

lemma keep_last_first_entries: "rev (first_entries key (rev env) {}) = keep_last key env"
proof (induction env)
  case Nil
  then show ?case by simp
next
  case (Cons e es)
  have split: "first_entries key (rev (e # es)) {}
      = first_entries key (rev es) {} @ first_entries key [e] (keys_of key es)"
    by (simp add: first_entries_append keys_of_simps(5))
  show ?case
  proof (cases "key e")
    case None
    then show ?thesis unfolding split by (simp add: Cons.IH)
  next
    case (Some k)
    then show ?thesis unfolding split by (simp add: Cons.IH keys_of_simps(4))
  qed
qed

lemma dedupEnvCase_keep_last:
  assumes "nulOK \<or> list_all (\<lambda>e. CHR 0x00 \<notin> set e) env"
  shows "dedupEnvCase ci nulOK env = (keep_last (dedup_key ci) env, False)"
proof -
  obtain out saw err where r: "dedup_loop ci nulOK (rev env) ([], [], False) = (out, saw, err)"
    by (cases "dedup_loop ci nulOK (rev env) ([], [], False)")
  from assms have ok: "nulOK \<or> (\<forall>e \<in> set (rev env). CHR 0x00 \<notin> set e)"
    by (auto simp: list_all_iff)
  from dedup_loop_entries [OF ok, of ci "[]" "[]" False] r
  have out: "out = first_entries (dedup_key ci) (rev env) {}" by simp
  have "err = False"
  proof (cases nulOK)
    case True
    with dedup_loop_err_nulOK [of ci "rev env" "[]" "[]" False] r show ?thesis by simp
  next
    case False
    with dedup_loop_err [of ci "rev env" "[]" "[]" False] r ok show ?thesis by simp
  qed
  with r out show ?thesis by (simp add: dedupEnvCase_def keep_last_first_entries)
qed

lemma child_environ_keep_last:
  assumes "\<not> snd (Cmd_entries h cmd)"
    and "GOOS h = ''plan9'' \<or> list_all (\<lambda>e. CHR 0x00 \<notin> set e) (fst (Cmd_entries h cmd))"
  shows "child_environ h cmd
     = Some (addCriticalEnv h (keep_last (dedup_key (GOOS h = ''windows''))
               (fst (Cmd_entries h cmd))))"
proof -
  obtain env where e: "Cmd_entries h cmd = (env, False)"
    using assms(1) by (cases "Cmd_entries h cmd") simp
  with assms(2) have "dedupEnv h env = (keep_last (dedup_key (GOOS h = ''windows'')) env, False)"
    unfolding dedupEnv_def by (intro dedupEnvCase_keep_last) simp
  with e show ?thesis by (simp add: child_environ_def Cmd_environ_def Cmd_entries_def)
qed

lemma Cmd_entries_cases:
  "CmdEnv cmd = Some env \<Longrightarrow> Cmd_entries h cmd = (env, False)"
  "CmdEnv cmd = None \<Longrightarrow> CmdDir cmd = [] \<or> GOOS h = ''windows'' \<or> GOOS h = ''plan9''
     \<Longrightarrow> Cmd_entries h cmd = (os_Environ h, False)"
  "CmdEnv cmd = None \<Longrightarrow> CmdDir cmd \<noteq> [] \<Longrightarrow> GOOS h \<noteq> ''windows'' \<Longrightarrow> GOOS h \<noteq> ''plan9''
     \<Longrightarrow> AbsPath h (CmdDir cmd) = Some pwd
     \<Longrightarrow> Cmd_entries h cmd = (os_Environ h @ [''PWD='' @ pwd], False)"
  by (auto simp: Cmd_entries_def)

lemma dedupEnv_posix:
  assumes "GOOS h \<noteq> ''windows''" and "GOOS h \<noteq> ''plan9''" and "env_well_formed h"
    and "distinct (map fst ovs)" and "list_all valid_variable ovs"
  shows "dedupEnv h (os_Environ h @ map env_line ovs)
     = (filter (\<lambda>e. entry_name e \<notin> fst ` set ovs) (os_Environ h) @ map env_line ovs, False)"
proof -
  from assms(3) have tbl: "distinct (map fst (EnvTable h))" "list_all valid_variable (EnvTable h)"
    by (simp_all add: env_well_formed_def)
  from tbl(2) assms(5) have "list_all valid_variable (EnvTable h @ ovs)" by simp
  from dedupEnvCase_valid [OF this, of False]
  have "dedupEnvCase False False (map env_line (EnvTable h @ ovs))
      = (map env_line (filter (\<lambda>p. fst p \<notin> fst ` set ovs) (EnvTable h) @ ovs), False)"
    by (simp only: kept_entries [OF tbl(1) assms(4)])
  with assms(1,2) show ?thesis
    by (simp add: dedupEnv_def os_Environ_def filter_env_lines [OF tbl(2)])
qed

lemma kept_env_lines:
  assumes "env_well_formed h"
  shows "filter (\<lambda>e. entry_name e \<notin> fst ` set ovs) (os_Environ h) @ map env_line ovs
     = map env_line (filter (\<lambda>p. fst p \<notin> fst ` set ovs) (EnvTable h) @ ovs)"
proof -
  from assms have "list_all valid_variable (EnvTable h)" by (simp add: env_well_formed_def)
  then show ?thesis by (simp add: os_Environ_def filter_env_lines)
qed

lemma kept_valid:
  assumes "env_well_formed h" and "list_all valid_variable ovs"
  shows "list_all valid_variable (filter (\<lambda>p. fst p \<notin> fst ` set ovs) (EnvTable h) @ ovs)"
proof -
  from assms(1) have "list_all valid_variable (EnvTable h)" by (simp add: env_well_formed_def)
  with assms(2) show ?thesis by (auto simp: list_all_iff)
qed

lemma getenv_kept:
  assumes "env_well_formed h" and "list_all valid_variable ovs"
  shows "getenv (filter (\<lambda>e. entry_name e \<notin> fst ` set ovs) (os_Environ h) @ map env_line ovs) name
     = (case map_of ovs name of Some v \<Rightarrow> Some v | None \<Rightarrow> os_LookupEnv h name)"
proof -
  let ?kept = "filter (\<lambda>p. fst p \<notin> fst ` set ovs) (EnvTable h) @ ovs"
  have "getenv (map env_line ?kept) name = map_of ?kept name"
    using kept_valid [OF assms] by (rule getenv_env_lines)
  also have "\<dots> = (case map_of ovs name of Some v \<Rightarrow> Some v | None \<Rightarrow> os_LookupEnv h name)"
    unfolding os_LookupEnv_def by (rule map_of_kept)
  finally show ?thesis unfolding kept_env_lines [OF assms(1)] .
qed

lemma names_kept:
  assumes "env_well_formed h" and "distinct (map fst ovs)" and "list_all valid_variable ovs"
  shows "distinct (map entry_name
           (filter (\<lambda>e. entry_name e \<notin> fst ` set ovs) (os_Environ h) @ map env_line ovs))"
proof -
  from assms(1) have tbl: "distinct (map fst (EnvTable h))" by (simp add: env_well_formed_def)
  let ?kept = "filter (\<lambda>p. fst p \<notin> fst ` set ovs) (EnvTable h) @ ovs"
  have names: "map entry_name (map env_line ?kept) = map fst ?kept"
    using kept_valid [OF assms(1,3)] by (rule entry_names_env_lines)
  from tbl have "distinct (map fst (filter (\<lambda>p. fst p \<notin> fst ` set ovs) (EnvTable h)))"
    by (rule distinct_map_filter)
  moreover have "fst ` set (filter (\<lambda>p. fst p \<notin> fst ` set ovs) (EnvTable h)) \<inter> fst ` set ovs = {}"
    by auto
  ultimately have "distinct (map fst ?kept)" using assms(2) by simp
  then show ?thesis unfolding kept_env_lines [OF assms(1)] names .
qed

lemma dedupEnvCase_NUL:
  "snd (dedupEnvCase ci False env) = (\<exists>kv \<in> set env. CHR 0x00 \<in> set kv)"
proof -
  obtain out saw err where r: "dedup_loop ci False (rev env) ([], [], False) = (out, saw, err)"
    by (cases "dedup_loop ci False (rev env) ([], [], False)")
  from dedup_loop_err [of ci "rev env" "[]" "[]" False] r
  have "err = (\<exists>kv \<in> set env. CHR 0x00 \<in> set kv)" by simp
  with r show ?thesis by (simp add: dedupEnvCase_def)
qed

lemma child_environ_NUL:
  assumes "GOOS h \<noteq> ''plan9''" and "CmdEnv cmd = Some env" and "kv \<in> set env"
    and "CHR 0x00 \<in> set kv"
  shows "child_environ h cmd = None"
proof -
  from assms(3,4) have "snd (dedupEnvCase (GOOS h = ''windows'') False env)"
    unfolding dedupEnvCase_NUL by blast
  then obtain out where "dedupEnvCase (GOOS h = ''windows'') False env = (out, True)"
    by (cases "dedupEnvCase (GOOS h = ''windows'') False env") simp
  with assms(1,2) show ?thesis
    by (simp add: child_environ_def Cmd_environ_def Cmd_entries_def dedupEnv_def)
qed

lemma child_environ_posix:
  assumes "GOOS h \<noteq> ''windows''" and "GOOS h \<noteq> ''plan9''" and "env_well_formed h"
  shows "CmdEnv cmd = None \<Longrightarrow> CmdDir cmd = [] \<Longrightarrow> child_environ h cmd = Some (os_Environ h)"
    and "CmdEnv cmd = None \<Longrightarrow> CmdDir cmd \<noteq> [] \<Longrightarrow> AbsPath h (CmdDir cmd) = Some pwd
           \<Longrightarrow> CHR 0x00 \<notin> set pwd
           \<Longrightarrow> child_environ h cmd
                 = Some (filter (\<lambda>e. entry_name e \<notin> fst ` set [(''PWD'', pwd)]) (os_Environ h)
                         @ map env_line [(''PWD'', pwd)])"
    and "CmdEnv cmd = Some (os_Environ h @ map env_line ovs) \<Longrightarrow> distinct (map fst ovs)
           \<Longrightarrow> list_all valid_variable ovs
           \<Longrightarrow> child_environ h cmd
                 = Some (filter (\<lambda>e. entry_name e \<notin> fst ` set ovs) (os_Environ h)
                         @ map env_line ovs)"
proof -
  note dedup = dedupEnv_posix [OF assms]
  show "child_environ h cmd = Some (os_Environ h)" if "CmdEnv cmd = None" "CmdDir cmd = []"
    using that dedup [of "[]"] assms(1)
    by (simp add: child_environ_def Cmd_environ_def Cmd_entries_def addCriticalEnv_def)
  show "child_environ h cmd
      = Some (filter (\<lambda>e. entry_name e \<notin> fst ` set [(''PWD'', pwd)]) (os_Environ h)
              @ map env_line [(''PWD'', pwd)])"
    if "CmdEnv cmd = None" "CmdDir cmd \<noteq> []" "AbsPath h (CmdDir cmd) = Some pwd"
      "CHR 0x00 \<notin> set pwd"
  proof -
    from that(4) have "list_all valid_variable [(''PWD'', pwd)]" by (simp add: valid_variable_def)
    from dedup [OF _ this] have "dedupEnv h (os_Environ h @ [''PWD='' @ pwd])
        = (filter (\<lambda>e. entry_name e \<notin> fst ` set [(''PWD'', pwd)]) (os_Environ h)
           @ map env_line [(''PWD'', pwd)], False)"
      by (simp add: env_line_def)
    with that(1,2,3) assms(1,2) show ?thesis
      by (simp add: child_environ_def Cmd_environ_def Cmd_entries_def addCriticalEnv_def)
  qed
  show "child_environ h cmd
      = Some (filter (\<lambda>e. entry_name e \<notin> fst ` set ovs) (os_Environ h) @ map env_line ovs)"
    if "CmdEnv cmd = Some (os_Environ h @ map env_line ovs)" "distinct (map fst ovs)"
      "list_all valid_variable ovs"
    using that(1) dedup [OF that(2,3)] assms(1)
    by (simp add: child_environ_def Cmd_environ_def Cmd_entries_def addCriticalEnv_def)
qed

lemma working_dir_result:
  assumes "working_dir h cwd = Inr dir"
  shows "cwd = [] \<Longrightarrow> dir = []" and "cwd \<noteq> [] \<Longrightarrow> AbsPath h cwd = Some dir \<and> IsDir h dir"
  using assms by (auto simp: working_dir_def split: if_splits option.splits)

lemma RunCommand_dir:
  assumes "snd (RunCommandTool_Execute h inp) = [cmd]"
  shows "working_dir h (Cwd inp) = Inr (CmdDir cmd)"
  using assms
  by (auto simp: RunCommandTool_Execute_def Let_def
      split: if_splits prod.splits bool.splits sum.splits)

lemma RunScript_dir:
  assumes "snd (RunScriptTool_Execute h inp) = [cmd]"
  shows "working_dir h (Cwd inp) = Inr (CmdDir cmd)"
  using assms
  by (auto simp: RunScriptTool_Execute_def Let_def
      split: if_splits prod.splits bool.splits sum.splits option.splits)

lemma os_Setenv_well_formed:
  assumes "os_Setenv h key val = Some h'" and "env_well_formed h"
  shows "env_well_formed h'"
proof -
  from assms(1) have h': "EnvTable h' = AList.update key val (EnvTable h)"
    and new: "valid_variable (key, val)"
    by (auto simp: os_Setenv_def valid_variable_def split: if_splits)
  from assms(2) have tbl: "distinct (map fst (EnvTable h))" "list_all valid_variable (EnvTable h)"
    by (simp_all add: env_well_formed_def)
  from tbl(1) have "distinct (map fst (AList.update key val (EnvTable h)))"
    by (rule distinct_update)
  moreover have "list_all valid_variable (AList.update key val al)"
    if "list_all valid_variable al" for al
    using that new by (induction al) auto
  ultimately show ?thesis using tbl(2) by (simp add: env_well_formed_def h')
qed

text \<open>
  C5, as the code has it. \<^verbatim>\<open>Execute\<close> leaves the command's environment unset when no
  override is given, and otherwise sets it to the caller's entries followed by one entry
  \<^verbatim>\<open>key=value\<close> for each override; it sets the command's directory to the resolved working
  directory when \<^verbatim>\<open>cwd\<close> is given. What the started process gets is what \<^verbatim>\<open>os/exec\<close> makes of
  that:
  \<^item> if an override's key or value holds a NUL byte, no process is started (except on
    Plan 9);
  \<^item> on every host, when no entry holds a NUL byte (or on Plan 9), the process is started
    with what \<^verbatim>\<open>os/exec\<close> keeps of a list of entries: of the caller's entries followed by
    the override entries, when overrides are given; of the caller's entries, when no
    override is given and either no \<^verbatim>\<open>cwd\<close> is given or the host is Windows or Plan 9; of the
    caller's entries followed by \<^verbatim>\<open>PWD=\<close> and the absolute path of the directory, when no
    override is given, a \<^verbatim>\<open>cwd\<close> is given and the host is a POSIX host. Of the entries with
    one key \<^verbatim>\<open>os/exec\<close> keeps the last one (\<open>keep_last\<close>, the keys being compared in lower
    case on Windows), and on Windows it adds \<^verbatim>\<open>SYSTEMROOT\<close> when no entry names it;
  \<^item> on a POSIX host whose environment table is well formed (which \<^verbatim>\<open>os.Setenv\<close> keeps):
    \<^item> with no override and no \<^verbatim>\<open>cwd\<close>, the process gets the caller's entries unchanged, and
      reads for every name what the caller reads;
    \<^item> with no override and a \<^verbatim>\<open>cwd\<close>, the process gets the caller's entries without the
      one for \<^verbatim>\<open>PWD\<close>, followed by \<^verbatim>\<open>PWD=\<close> and the absolute path of the directory: it reads
      that path for \<^verbatim>\<open>PWD\<close> and the caller's value for every other name;
    \<^item> with overrides, whose keys are not empty and hold no \<^verbatim>\<open>=\<close> and which hold no NUL
      byte, the process gets the caller's entries without those for the override keys,
      followed by the override entries: it reads the override's value for an overridden
      name and the caller's value for every other name (\<^verbatim>\<open>PWD\<close> too, with or without
      \<^verbatim>\<open>cwd\<close>);
    in each case no two entries have one name.

  The environment is thus not always the caller's with the overrides on top: with a \<^verbatim>\<open>cwd\<close>
  and no override the process gets \<^verbatim>\<open>PWD\<close> in addition, and the override \<^verbatim>\<open>A=B\<close> with value
  \<^verbatim>\<open>c\<close> becomes the entry \<^verbatim>\<open>A=B=c\<close>, which replaces the caller's entry for \<^verbatim>\<open>A\<close>.
\<close>

theorem child_environment_overrides:
  fixes inp :: RunCommandInput and sinp :: RunScriptInput
  assumes "snd (RunCommandTool_Execute h inp) = [cmd] \<and> overrides = EnvOverrides inp
             \<and> cwd = Cwd inp
         \<or> snd (RunScriptTool_Execute h sinp) = [cmd] \<and> overrides = EnvOverrides sinp
             \<and> cwd = Cwd sinp"
  shows "(overrides = [] \<longrightarrow> CmdEnv cmd = None)
    \<and> (overrides \<noteq> [] \<longrightarrow> CmdEnv cmd = Some (os_Environ h @ map env_line overrides))
    \<and> (cwd = [] \<longrightarrow> CmdDir cmd = [])
    \<and> (cwd \<noteq> [] \<longrightarrow> AbsPath h cwd = Some (CmdDir cmd) \<and> IsDir h (CmdDir cmd))
    \<and> (GOOS h \<noteq> ''plan9'' \<and> (k, v) \<in> set overrides \<and> (CHR 0x00 \<in> set k \<or> CHR 0x00 \<in> set v)
        \<longrightarrow> child_environ h cmd = None)
    \<and> (overrides \<noteq> []
        \<and> (GOOS h = ''plan9''
            \<or> list_all (\<lambda>e. CHR 0x00 \<notin> set e) (os_Environ h @ map env_line overrides))
        \<longrightarrow> child_environ h cmd
              = Some (addCriticalEnv h (keep_last (dedup_key (GOOS h = ''windows''))
                        (os_Environ h @ map env_line overrides))))
    \<and> (overrides = [] \<and> (CmdDir cmd = [] \<or> GOOS h = ''windows'' \<or> GOOS h = ''plan9'')
        \<and> (GOOS h = ''plan9'' \<or> list_all (\<lambda>e. CHR 0x00 \<notin> set e) (os_Environ h))
        \<longrightarrow> child_environ h cmd
              = Some (addCriticalEnv h (keep_last (dedup_key (GOOS h = ''windows''))
                        (os_Environ h))))
    \<and> (overrides = [] \<and> CmdDir cmd \<noteq> [] \<and> GOOS h \<noteq> ''windows'' \<and> GOOS h \<noteq> ''plan9''
        \<and> AbsPath h (CmdDir cmd) = Some pwd
        \<and> list_all (\<lambda>e. CHR 0x00 \<notin> set e) (os_Environ h @ [''PWD='' @ pwd])
        \<longrightarrow> child_environ h cmd
              = Some (keep_last (dedup_key False) (os_Environ h @ [''PWD='' @ pwd])))
    \<and> (GOOS h \<noteq> ''windows'' \<and> GOOS h \<noteq> ''plan9'' \<and> env_well_formed h \<longrightarrow>
         (overrides = [] \<and> CmdDir cmd = [] \<longrightarrow>
            child_environ h cmd = Some (os_Environ h)
            \<and> distinct (map entry_name (os_Environ h))
            \<and> (\<forall>name. getenv (os_Environ h) name = os_LookupEnv h name))
       \<and> (overrides = [] \<and> CmdDir cmd \<noteq> [] \<and> AbsPath h (CmdDir cmd) = Some pwd
            \<and> CHR 0x00 \<notin> set pwd \<longrightarrow>
            (\<exists>env. child_environ h cmd = Some env
               \<and> env = filter (\<lambda>e. entry_name e \<noteq> ''PWD'') (os_Environ h) @ [''PWD='' @ pwd]
               \<and> distinct (map entry_name env)
               \<and> (\<forall>name. getenv env name
                     = (if name = ''PWD'' then Some pwd else os_LookupEnv h name))))
       \<and> (overrides \<noteq> [] \<and> distinct (map fst overrides) \<and> list_all valid_variable overrides \<longrightarrow>
            (\<exists>env. child_environ h cmd = Some env
               \<and> env = filter (\<lambda>e. entry_name e \<notin> fst ` set overrides) (os_Environ h)
                       @ map env_line overrides
               \<and> distinct (map entry_name env)
               \<and> (\<forall>name. getenv env name
                     = (case map_of overrides name of
                          Some v \<Rightarrow> Some v
                        | None \<Rightarrow> os_LookupEnv h name))))
       \<and> (os_Setenv h key val = Some h' \<longrightarrow> env_well_formed h'))"
proof -
  from assms have env: "CmdEnv cmd = command_env h overrides"
    and dir: "working_dir h cwd = Inr (CmdDir cmd)"
  proof -
    show "CmdEnv cmd = command_env h overrides"
      using assms
    proof (elim disjE conjE)
      assume a: "snd (RunCommandTool_Execute h inp) = [cmd]" "overrides = EnvOverrides inp"
      from RunCommand_spawned(1) [OF a(1)] a(2) show ?thesis by (cases cmd) simp
    next
      assume a: "snd (RunScriptTool_Execute h sinp) = [cmd]" "overrides = EnvOverrides sinp"
      from RunScript_spawned(1) [OF a(1)] a(2) show ?thesis by (cases cmd) simp
    qed
    show "working_dir h cwd = Inr (CmdDir cmd)"
      using assms RunCommand_dir [of h inp cmd] RunScript_dir [of h sinp cmd] by blast
  qed
  from env have e1: "CmdEnv cmd = None" if "overrides = []"
    using that by (simp add: command_env_def)
  from env have e2: "CmdEnv cmd = Some (os_Environ h @ map env_line overrides)"
    if "overrides \<noteq> []"
    using that by (simp add: command_env_def)
  note d1 = working_dir_result(1) [OF dir] and d2 = working_dir_result(2) [OF dir]
  have nul: "child_environ h cmd = None"
    if "GOOS h \<noteq> ''plan9''" "(k, v) \<in> set overrides" "CHR 0x00 \<in> set k \<or> CHR 0x00 \<in> set v"
  proof -
    from that(2) have ne: "overrides \<noteq> []" by auto
    from that(2) have "env_line (k, v) \<in> set (os_Environ h @ map env_line overrides)" by simp
    moreover from that(3) have "CHR 0x00 \<in> set (env_line (k, v))" by (auto simp: env_line_def)
    ultimately show ?thesis by (rule child_environ_NUL [OF that(1) e2 [OF ne]])
  qed
  have posix: "(overrides = [] \<and> CmdDir cmd = [] \<longrightarrow>
            child_environ h cmd = Some (os_Environ h)
            \<and> distinct (map entry_name (os_Environ h))
            \<and> (\<forall>name. getenv (os_Environ h) name = os_LookupEnv h name))
       \<and> (overrides = [] \<and> CmdDir cmd \<noteq> [] \<and> AbsPath h (CmdDir cmd) = Some pwd
            \<and> CHR 0x00 \<notin> set pwd \<longrightarrow>
            (\<exists>env. child_environ h cmd = Some env
               \<and> env = filter (\<lambda>e. entry_name e \<noteq> ''PWD'') (os_Environ h) @ [''PWD='' @ pwd]
               \<and> distinct (map entry_name env)
               \<and> (\<forall>name. getenv env name
                     = (if name = ''PWD'' then Some pwd else os_LookupEnv h name))))
       \<and> (overrides \<noteq> [] \<and> distinct (map fst overrides) \<and> list_all valid_variable overrides \<longrightarrow>
            (\<exists>env. child_environ h cmd = Some env
               \<and> env = filter (\<lambda>e. entry_name e \<notin> fst ` set overrides) (os_Environ h)
                       @ map env_line overrides
               \<and> distinct (map entry_name env)
               \<and> (\<forall>name. getenv env name
                     = (case map_of overrides name of
                          Some v \<Rightarrow> Some v
                        | None \<Rightarrow> os_LookupEnv h name))))
       \<and> (os_Setenv h key val = Some h' \<longrightarrow> env_well_formed h')"
    (is ?posix_part)
    if os: "GOOS h \<noteq> ''windows''" "GOOS h \<noteq> ''plan9''" and wf: "env_well_formed h"
  proof -
    note child = child_environ_posix [OF os wf]
    have c1: "child_environ h cmd = Some (os_Environ h)"
      and c2: "distinct (map entry_name (os_Environ h))"
      and c3: "\<forall>name. getenv (os_Environ h) name = os_LookupEnv h name"
      if "overrides = []" "CmdDir cmd = []"
    proof -
      from child(1) [OF e1 [OF that(1)] that(2)] show "child_environ h cmd = Some (os_Environ h)" .
      from names_kept [OF wf, of "[]"] show "distinct (map entry_name (os_Environ h))" by simp
      from getenv_kept [OF wf, of "[]"]
      show "\<forall>name. getenv (os_Environ h) name = os_LookupEnv h name" by simp
    qed
    have c4: "\<exists>env. child_environ h cmd = Some env
               \<and> env = filter (\<lambda>e. entry_name e \<noteq> ''PWD'') (os_Environ h) @ [''PWD='' @ pwd]
               \<and> distinct (map entry_name env)
               \<and> (\<forall>name. getenv env name
                     = (if name = ''PWD'' then Some pwd else os_LookupEnv h name))"
      if "overrides = []" "CmdDir cmd \<noteq> []" "AbsPath h (CmdDir cmd) = Some pwd"
        "CHR 0x00 \<notin> set pwd"
    proof -
      let ?ovs = "[(''PWD'', pwd)]"
      let ?env = "filter (\<lambda>e. entry_name e \<notin> fst ` set ?ovs) (os_Environ h) @ map env_line ?ovs"
      from that(4) have valid: "list_all valid_variable ?ovs" by (simp add: valid_variable_def)
      have shape: "?env = filter (\<lambda>e. entry_name e \<noteq> ''PWD'') (os_Environ h) @ [''PWD='' @ pwd]"
        by (simp add: env_line_def)
      have "child_environ h cmd = Some ?env"
        by (rule child(2) [OF e1 [OF that(1)] that(2,3,4)])
      moreover have "distinct (map entry_name ?env)"
        by (rule names_kept [OF wf _ valid]) simp
      moreover have "getenv ?env name
          = (if name = ''PWD'' then Some pwd else os_LookupEnv h name)" for name
        unfolding getenv_kept [OF wf valid] by simp
      ultimately show ?thesis unfolding shape by blast
    qed
    have c5: "\<exists>env. child_environ h cmd = Some env
               \<and> env = filter (\<lambda>e. entry_name e \<notin> fst ` set overrides) (os_Environ h)
                       @ map env_line overrides
               \<and> distinct (map entry_name env)
               \<and> (\<forall>name. getenv env name
                     = (case map_of overrides name of
                          Some v \<Rightarrow> Some v
                        | None \<Rightarrow> os_LookupEnv h name))"
      if "overrides \<noteq> []" "distinct (map fst overrides)" "list_all valid_variable overrides"
    proof -
      let ?env = "filter (\<lambda>e. entry_name e \<notin> fst ` set overrides) (os_Environ h)
                    @ map env_line overrides"
      have "child_environ h cmd = Some ?env"
        by (rule child(3) [OF e2 [OF that(1)] that(2,3)])
      moreover have "distinct (map entry_name ?env)"
        by (rule names_kept [OF wf that(2,3)])
      moreover have "getenv ?env name
          = (case map_of overrides name of Some v \<Rightarrow> Some v | None \<Rightarrow> os_LookupEnv h name)"
        for name
        by (rule getenv_kept [OF wf that(3)])
      ultimately show ?thesis by blast
    qed
    have c6: "env_well_formed h'" if "os_Setenv h key val = Some h'"
      using that wf by (rule os_Setenv_well_formed)
    from c1 c2 c3 c4 c5 c6 show ?thesis by blast
  qed
  have all1: "child_environ h cmd
      = Some (addCriticalEnv h (keep_last (dedup_key (GOOS h = ''windows''))
                (os_Environ h @ map env_line overrides)))"
    if "overrides \<noteq> []"
      "GOOS h = ''plan9''
       \<or> list_all (\<lambda>e. CHR 0x00 \<notin> set e) (os_Environ h @ map env_line overrides)"
  proof -
    from Cmd_entries_cases(1) [OF e2 [OF that(1)]]
    have c: "Cmd_entries h cmd = (os_Environ h @ map env_line overrides, False)" .
    from child_environ_keep_last [of h cmd] that(2) show ?thesis unfolding c by simp
  qed
  have all2: "child_environ h cmd
      = Some (addCriticalEnv h (keep_last (dedup_key (GOOS h = ''windows'')) (os_Environ h)))"
    if "overrides = []" "CmdDir cmd = [] \<or> GOOS h = ''windows'' \<or> GOOS h = ''plan9''"
      "GOOS h = ''plan9'' \<or> list_all (\<lambda>e. CHR 0x00 \<notin> set e) (os_Environ h)"
  proof -
    from Cmd_entries_cases(2) [OF e1 [OF that(1)] that(2)]
    have c: "Cmd_entries h cmd = (os_Environ h, False)" .
    from child_environ_keep_last [of h cmd] that(3) show ?thesis unfolding c by simp
  qed
  have all3: "child_environ h cmd
      = Some (keep_last (dedup_key False) (os_Environ h @ [''PWD='' @ pwd]))"
    if "overrides = []" "CmdDir cmd \<noteq> []" "GOOS h \<noteq> ''windows''" "GOOS h \<noteq> ''plan9''"
      "AbsPath h (CmdDir cmd) = Some pwd"
      "list_all (\<lambda>e. CHR 0x00 \<notin> set e) (os_Environ h @ [''PWD='' @ pwd])"
  proof -
    from Cmd_entries_cases(3) [OF e1 [OF that(1)] that(2,3,4,5)]
    have c: "Cmd_entries h cmd = (os_Environ h @ [''PWD='' @ pwd], False)" .
    from child_environ_keep_last [of h cmd] that(3,6) show ?thesis
      unfolding c by (simp add: addCriticalEnv_def)
  qed
  have t1: "overrides = [] \<longrightarrow> CmdEnv cmd = None" using e1 by blast
  have t2: "overrides \<noteq> [] \<longrightarrow> CmdEnv cmd = Some (os_Environ h @ map env_line overrides)"
    using e2 by blast
  have t3: "cwd = [] \<longrightarrow> CmdDir cmd = []" using d1 by blast
  have t4: "cwd \<noteq> [] \<longrightarrow> AbsPath h cwd = Some (CmdDir cmd) \<and> IsDir h (CmdDir cmd)"
    using d2 by blast
  have t5: "GOOS h \<noteq> ''plan9'' \<and> (k, v) \<in> set overrides
      \<and> (CHR 0x00 \<in> set k \<or> CHR 0x00 \<in> set v)
      \<longrightarrow> child_environ h cmd = None"
    using nul by blast
  have t6: "overrides \<noteq> []
      \<and> (GOOS h = ''plan9''
          \<or> list_all (\<lambda>e. CHR 0x00 \<notin> set e) (os_Environ h @ map env_line overrides))
      \<longrightarrow> child_environ h cmd
            = Some (addCriticalEnv h (keep_last (dedup_key (GOOS h = ''windows''))
                      (os_Environ h @ map env_line overrides)))"
    using all1 by blast
  have t7: "overrides = [] \<and> (CmdDir cmd = [] \<or> GOOS h = ''windows'' \<or> GOOS h = ''plan9'')
      \<and> (GOOS h = ''plan9'' \<or> list_all (\<lambda>e. CHR 0x00 \<notin> set e) (os_Environ h))
      \<longrightarrow> child_environ h cmd
            = Some (addCriticalEnv h (keep_last (dedup_key (GOOS h = ''windows''))
                      (os_Environ h)))"
    using all2 by blast
  have t8: "overrides = [] \<and> CmdDir cmd \<noteq> [] \<and> GOOS h \<noteq> ''windows'' \<and> GOOS h \<noteq> ''plan9''
      \<and> AbsPath h (CmdDir cmd) = Some pwd
      \<and> list_all (\<lambda>e. CHR 0x00 \<notin> set e) (os_Environ h @ [''PWD='' @ pwd])
      \<longrightarrow> child_environ h cmd
            = Some (keep_last (dedup_key False) (os_Environ h @ [''PWD='' @ pwd]))"
    using all3 by blast
  have t9: "GOOS h \<noteq> ''windows'' \<and> GOOS h \<noteq> ''plan9'' \<and> env_well_formed h \<longrightarrow> ?posix_part"
    by (intro impI, elim conjE, rule posix)
  show ?thesis by (intro conjI; fact)
qed

lemma example_Environ:
  "os_Environ example_host = [''HOME=/root'', ''A=1'', ''X=0'', ''API_KEY=abcdef1234'', ''TOKEN=****'']"
  by (simp add: os_Environ_def example_host_fields env_line_def)

lemma example_well_formed: "env_well_formed example_host"
  by (simp add: env_well_formed_def example_host_fields valid_variable_def)

lemma example_override_runs:
  assumes "cwd = [] \<or> cwd = ''/tmp''"
  shows "snd (RunCommandTool_Execute example_host
         \<lparr>Cwd = cwd, EnvOverrides = overrides, TimeoutMs = 0, Cmd = ''echo'', Args = [''hi'']\<rparr>)
     = [\<lparr>CmdName = ''echo'', CmdArgs = [''hi''], CmdDir = cwd,
         CmdEnv = command_env example_host overrides, CmdTimeout = 30000000000\<rparr>]"
    and "snd (RunScriptTool_Execute example_host
         \<lparr>Cwd = cwd, EnvOverrides = overrides, TimeoutMs = 0, Script = ''echo hi'', Shell = []\<rparr>)
     = [\<lparr>CmdName = ''/usr/bin/zsh'', CmdArgs = [''-c'', ''echo hi''], CmdDir = cwd,
         CmdEnv = command_env example_host overrides, CmdTimeout = 30000000000\<rparr>]"
  using assms
  by (auto simp: example_host_fields example_run_def example_program_def
      RunCommandTool_Execute_def RunScriptTool_Execute_def fullCmd_of_def working_dir_def
      exit_status_def HasPrefix_def skipped_line_def example_isDenied example_TrimSpace
      example_resolveShell timeout_of_def defaultTimeoutMs_def)

lemma example_windows_fields:
  "GOOS example_windows_host = ''windows''"
  "os_Environ example_windows_host = os_Environ example_host"
  "os_Getenv example_windows_host ''SYSTEMROOT'' = []"
  "AbsPath example_windows_host p = Some p"
  by (simp_all add: example_windows_host_def os_Environ_def os_Getenv_def os_LookupEnv_def
      example_host_fields)

lemma example_windows_runs:
  assumes "cwd = [] \<or> cwd = ''/tmp''"
  shows "snd (RunCommandTool_Execute example_windows_host
         \<lparr>Cwd = cwd, EnvOverrides = overrides, TimeoutMs = 0, Cmd = ''echo'', Args = [''hi'']\<rparr>)
     = [\<lparr>CmdName = ''echo'', CmdArgs = [''hi''], CmdDir = cwd,
         CmdEnv = command_env example_windows_host overrides, CmdTimeout = 30000000000\<rparr>]"
  using assms
  by (auto simp: example_windows_host_def example_host_fields example_run_def
      example_program_def RunCommandTool_Execute_def fullCmd_of_def working_dir_def
      exit_status_def example_isDenied timeout_of_def defaultTimeoutMs_def)

lemma example_keys:
  "dedup_key False ''HOME=/root'' = Some ''HOME''" "dedup_key False ''A=1'' = Some ''A''"
  "dedup_key False ''X=0'' = Some ''X''" "dedup_key False ''API_KEY=abcdef1234'' = Some ''API_KEY''"
  "dedup_key False ''TOKEN=****'' = Some ''TOKEN''" "dedup_key False ''PWD=/tmp'' = Some ''PWD''"
  "dedup_key True ''HOME=/root'' = Some ''home''" "dedup_key True ''A=1'' = Some ''a''"
  "dedup_key True ''X=0'' = Some ''x''" "dedup_key True ''API_KEY=abcdef1234'' = Some ''api_key''"
  "dedup_key True ''TOKEN=****'' = Some ''token''" "dedup_key True ''home=C:/x'' = Some ''home''"
  by (simp_all add: dedup_key_def ToLower_def lower_chars_def upper_chars_def)

lemma example_Cut:
  "Cut_before ''HOME=/root'' (CHR ''='') = Some ''HOME''" "Cut_before ''A=1'' (CHR ''='') = Some ''A''"
  "Cut_before ''X=0'' (CHR ''='') = Some ''X''"
  "Cut_before ''API_KEY=abcdef1234'' (CHR ''='') = Some ''API_KEY''"
  "Cut_before ''TOKEN=****'' (CHR ''='') = Some ''TOKEN''"
  "Cut_before ''home=C:/x'' (CHR ''='') = Some ''home''"
  by (simp_all add: Cut_before_def)

lemma example_EqualFold:
  "\<not> EqualFold ''HOME'' ''SYSTEMROOT''" "\<not> EqualFold ''A'' ''SYSTEMROOT''"
  "\<not> EqualFold ''X'' ''SYSTEMROOT''" "\<not> EqualFold ''API_KEY'' ''SYSTEMROOT''"
  "\<not> EqualFold ''TOKEN'' ''SYSTEMROOT''" "\<not> EqualFold ''home'' ''SYSTEMROOT''"
  by (simp_all add: EqualFold_def ToLower_def)

theorem child_environment_overrides_witness:
  "child_environ example_host (hd (snd (RunCommandTool_Execute example_host
      \<lparr>Cwd = [], EnvOverrides = [(''X'', ''1''), (''Y'', ''2'')], TimeoutMs = 0,
       Cmd = ''echo'', Args = [''hi'']\<rparr>)))
     = Some [''HOME=/root'', ''A=1'', ''API_KEY=abcdef1234'', ''TOKEN=****'', ''X=1'', ''Y=2'']
   \<and> getenv [''HOME=/root'', ''A=1'', ''API_KEY=abcdef1234'', ''TOKEN=****'', ''X=1'', ''Y=2'']
        ''X'' = Some ''1''
   \<and> getenv [''HOME=/root'', ''A=1'', ''API_KEY=abcdef1234'', ''TOKEN=****'', ''X=1'', ''Y=2'']
        ''HOME'' = Some ''/root''
   \<and> os_LookupEnv example_host ''X'' = Some ''0''
   \<and> child_environ example_host (hd (snd (RunScriptTool_Execute example_host
      \<lparr>Cwd = [], EnvOverrides = [], TimeoutMs = 0, Script = ''echo hi'', Shell = []\<rparr>)))
     = Some (os_Environ example_host)
   \<and> child_environ example_host (hd (snd (RunCommandTool_Execute example_host
      \<lparr>Cwd = ''/tmp'', EnvOverrides = [], TimeoutMs = 0, Cmd = ''echo'', Args = [''hi'']\<rparr>)))
     = Some [''HOME=/root'', ''A=1'', ''X=0'', ''API_KEY=abcdef1234'', ''TOKEN=****'', ''PWD=/tmp'']
   \<and> child_environ example_host (hd (snd (RunScriptTool_Execute example_host
      \<lparr>Cwd = [], EnvOverrides = [(''X'', [CHR 0x00])], TimeoutMs = 0, Script = ''echo hi'',
       Shell = []\<rparr>))) = None
   \<and> os_Setenv example_host ''Z'' ''9''
     = Some (example_host\<lparr>EnvTable := EnvTable example_host @ [(''Z'', ''9'')]\<rparr>)
   \<and> env_well_formed (example_host\<lparr>EnvTable := EnvTable example_host @ [(''Z'', ''9'')]\<rparr>)
   \<and> child_environ example_windows_host (hd (snd (RunCommandTool_Execute example_windows_host
      \<lparr>Cwd = ''/tmp'', EnvOverrides = [(''home'', ''C:/x'')], TimeoutMs = 0,
       Cmd = ''echo'', Args = [''hi'']\<rparr>)))
     = Some [''A=1'', ''X=0'', ''API_KEY=abcdef1234'', ''TOKEN=****'', ''home=C:/x'',
             ''SYSTEMROOT='']
   \<and> child_environ example_windows_host (hd (snd (RunCommandTool_Execute example_windows_host
      \<lparr>Cwd = ''/tmp'', EnvOverrides = [], TimeoutMs = 0, Cmd = ''echo'', Args = [''hi'']\<rparr>)))
     = Some [''HOME=/root'', ''A=1'', ''X=0'', ''API_KEY=abcdef1234'', ''TOKEN=****'',
             ''SYSTEMROOT='']
   \<and> child_environ example_host (hd (snd (RunScriptTool_Execute example_host
      \<lparr>Cwd = ''/tmp'', EnvOverrides = [], TimeoutMs = 0, Script = ''echo hi'', Shell = []\<rparr>)))
     = Some [''HOME=/root'', ''A=1'', ''X=0'', ''API_KEY=abcdef1234'', ''TOKEN=****'', ''PWD=/tmp'']"
proof -
  note c5 = child_environment_overrides
  let ?ovs = "[(''X'', ''1''), (''Y'', ''2'')]"
  let ?bad = "[(''X'', [CHR 0x00])]"
  let ?wovs = "[(''home'', ''C:/x'')]"
  let ?inp = "\<lparr>Cwd = [], EnvOverrides = ?ovs, TimeoutMs = 0, Cmd = ''echo'', Args = [''hi'']\<rparr>"
  let ?splain = "\<lparr>Cwd = [], EnvOverrides = [], TimeoutMs = 0, Script = ''echo hi'', Shell = []\<rparr>"
  let ?tmp = "\<lparr>Cwd = ''/tmp'', EnvOverrides = [], TimeoutMs = 0, Cmd = ''echo'', Args = [''hi'']\<rparr>"
  let ?stmp = "\<lparr>Cwd = ''/tmp'', EnvOverrides = [], TimeoutMs = 0, Script = ''echo hi'', Shell = []\<rparr>"
  let ?sbad = "\<lparr>Cwd = [], EnvOverrides = ?bad, TimeoutMs = 0, Script = ''echo hi'', Shell = []\<rparr>"
  let ?winp = "\<lparr>Cwd = ''/tmp'', EnvOverrides = ?wovs, TimeoutMs = 0, Cmd = ''echo'', Args = [''hi'']\<rparr>"
  let ?cmd = "hd (snd (RunCommandTool_Execute example_host ?inp))"
  let ?spcmd = "hd (snd (RunScriptTool_Execute example_host ?splain))"
  let ?tcmd = "hd (snd (RunCommandTool_Execute example_host ?tmp))"
  let ?stcmd = "hd (snd (RunScriptTool_Execute example_host ?stmp))"
  let ?bcmd = "hd (snd (RunScriptTool_Execute example_host ?sbad))"
  let ?wcmd = "hd (snd (RunCommandTool_Execute example_windows_host ?winp))"
  let ?wtcmd = "hd (snd (RunCommandTool_Execute example_windows_host ?tmp))"
  let ?h' = "example_host\<lparr>EnvTable := EnvTable example_host @ [(''Z'', ''9'')]\<rparr>"
  have os: "GOOS example_host \<noteq> ''windows''" "GOOS example_host \<noteq> ''plan9''"
    by (simp_all add: example_host_fields)
  note wf = example_well_formed
  have spawned: "snd (RunCommandTool_Execute example_host ?inp) = [?cmd]"
    "snd (RunScriptTool_Execute example_host ?splain) = [?spcmd]"
    "snd (RunCommandTool_Execute example_host ?tmp) = [?tcmd]"
    "snd (RunScriptTool_Execute example_host ?sbad) = [?bcmd]"
    "snd (RunScriptTool_Execute example_host ?stmp) = [?stcmd]"
    by (simp_all add: example_override_runs)
  have wspawned: "snd (RunCommandTool_Execute example_windows_host ?winp) = [?wcmd]"
    "snd (RunCommandTool_Execute example_windows_host ?tmp) = [?wtcmd]"
    by (simp_all add: example_windows_runs)
  have dirs: "CmdDir ?cmd = []" "CmdDir ?spcmd = []" "CmdDir ?tcmd = ''/tmp''"
    "CmdDir ?stcmd = ''/tmp''"
    by (simp_all add: example_override_runs)
  have set: "os_Setenv example_host ''Z'' ''9'' = Some ?h'"
    by (simp add: os_Setenv_def example_host_fields)
  have nonul: "list_all (\<lambda>e. CHR 0x00 \<notin> set e) (os_Environ example_host)"
    "list_all (\<lambda>e. CHR 0x00 \<notin> set e) (os_Environ example_host @ [''PWD='' @ ''/tmp''])"
    "list_all (\<lambda>e. CHR 0x00 \<notin> set e) (os_Environ example_windows_host @ map env_line ?wovs)"
    "list_all (\<lambda>e. CHR 0x00 \<notin> set e) (os_Environ example_windows_host)"
    by (simp_all add: example_windows_fields example_Environ env_line_def)

  have h1: "snd (RunCommandTool_Execute example_host ?inp) = [?cmd] \<and> ?ovs = EnvOverrides ?inp
          \<and> [] = Cwd ?inp
      \<or> snd (RunScriptTool_Execute example_host ?splain) = [?cmd] \<and> ?ovs = EnvOverrides ?splain
          \<and> [] = Cwd ?splain"
    using spawned(1) by simp
  note p1 = c5 [OF h1, where key = "''Z''" and val = "''9''" and h' = ?h',
      THEN conjunct2, THEN conjunct2, THEN conjunct2, THEN conjunct2, THEN conjunct2,
      THEN conjunct2, THEN conjunct2, THEN conjunct2, THEN mp, OF conjI [OF os(1) conjI [OF os(2) wf]]]
  have valid: "?ovs \<noteq> [] \<and> distinct (map fst ?ovs) \<and> list_all valid_variable ?ovs"
    by (simp add: valid_variable_def)
  from p1 [THEN conjunct2, THEN conjunct2, THEN conjunct1, THEN mp, OF valid]
  have a: "\<exists>env. child_environ example_host ?cmd = Some env
      \<and> env = filter (\<lambda>e. entry_name e \<notin> fst ` set ?ovs) (os_Environ example_host)
              @ map env_line ?ovs
      \<and> distinct (map entry_name env)
      \<and> (\<forall>name. getenv env name
            = (case map_of ?ovs name of Some v \<Rightarrow> Some v | None \<Rightarrow> os_LookupEnv example_host name))" .
  from p1 [THEN conjunct2, THEN conjunct2, THEN conjunct2, THEN mp, OF set]
  have 9: "env_well_formed ?h'" .
  have kept: "filter (\<lambda>e. entry_name e \<notin> fst ` set ?ovs) (os_Environ example_host)
      @ map env_line ?ovs
      = [''HOME=/root'', ''A=1'', ''API_KEY=abcdef1234'', ''TOKEN=****'', ''X=1'', ''Y=2'']"
    by (simp add: example_Environ entry_name_def env_line_def)
  from a have 1: "child_environ example_host ?cmd
      = Some [''HOME=/root'', ''A=1'', ''API_KEY=abcdef1234'', ''TOKEN=****'', ''X=1'', ''Y=2'']"
    and g: "getenv [''HOME=/root'', ''A=1'', ''API_KEY=abcdef1234'', ''TOKEN=****'', ''X=1'', ''Y=2'']
        name = (case map_of ?ovs name of Some v \<Rightarrow> Some v | None \<Rightarrow> os_LookupEnv example_host name)"
    for name
    unfolding kept by simp_all
  have 2: "getenv [''HOME=/root'', ''A=1'', ''API_KEY=abcdef1234'', ''TOKEN=****'', ''X=1'', ''Y=2'']
        ''X'' = Some ''1''"
    and 3: "getenv [''HOME=/root'', ''A=1'', ''API_KEY=abcdef1234'', ''TOKEN=****'', ''X=1'', ''Y=2'']
        ''HOME'' = Some ''/root''"
    unfolding g by (simp_all add: os_LookupEnv_def example_host_fields)
  have 4: "os_LookupEnv example_host ''X'' = Some ''0''"
    by (simp add: os_LookupEnv_def example_host_fields)

  have h2: "snd (RunCommandTool_Execute example_host ?inp) = [?spcmd] \<and> [] = EnvOverrides ?inp
          \<and> [] = Cwd ?inp
      \<or> snd (RunScriptTool_Execute example_host ?splain) = [?spcmd] \<and> [] = EnvOverrides ?splain
          \<and> [] = Cwd ?splain"
    using spawned(2) by simp
  note p2 = c5 [OF h2,
      THEN conjunct2, THEN conjunct2, THEN conjunct2, THEN conjunct2, THEN conjunct2,
      THEN conjunct2, THEN conjunct2, THEN conjunct2, THEN mp, OF conjI [OF os(1) conjI [OF os(2) wf]]]
  from p2 [THEN conjunct1, THEN mp, OF conjI [OF refl dirs(2)], THEN conjunct1]
  have 5: "child_environ example_host ?spcmd = Some (os_Environ example_host)" .

  have h3: "snd (RunCommandTool_Execute example_host ?tmp) = [?tcmd] \<and> [] = EnvOverrides ?tmp
          \<and> ''/tmp'' = Cwd ?tmp
      \<or> snd (RunScriptTool_Execute example_host ?splain) = [?tcmd] \<and> [] = EnvOverrides ?splain
          \<and> ''/tmp'' = Cwd ?splain"
    using spawned(3) by simp
  note p3 = c5 [OF h3, where pwd = "''/tmp''",
      THEN conjunct2, THEN conjunct2, THEN conjunct2, THEN conjunct2, THEN conjunct2,
      THEN conjunct2, THEN conjunct2, THEN conjunct2, THEN mp, OF conjI [OF os(1) conjI [OF os(2) wf]]]
  have pwd: "[] = ([] :: (string \<times> string) list) \<and> CmdDir ?tcmd \<noteq> []
      \<and> AbsPath example_host (CmdDir ?tcmd) = Some ''/tmp'' \<and> CHR 0x00 \<notin> set ''/tmp''"
    by (simp add: dirs(3) example_host_fields)
  from p3 [THEN conjunct2, THEN conjunct1, THEN mp, OF pwd]
  have "\<exists>env. child_environ example_host ?tcmd = Some env
      \<and> env = filter (\<lambda>e. entry_name e \<noteq> ''PWD'') (os_Environ example_host) @ [''PWD='' @ ''/tmp'']
      \<and> distinct (map entry_name env)
      \<and> (\<forall>name. getenv env name
            = (if name = ''PWD'' then Some ''/tmp'' else os_LookupEnv example_host name))" .
  then have 6: "child_environ example_host ?tcmd
      = Some [''HOME=/root'', ''A=1'', ''X=0'', ''API_KEY=abcdef1234'', ''TOKEN=****'', ''PWD=/tmp'']"
    by (simp add: example_Environ entry_name_def)

  have h4: "snd (RunCommandTool_Execute example_host ?inp) = [?bcmd] \<and> ?bad = EnvOverrides ?inp
          \<and> [] = Cwd ?inp
      \<or> snd (RunScriptTool_Execute example_host ?sbad) = [?bcmd] \<and> ?bad = EnvOverrides ?sbad
          \<and> [] = Cwd ?sbad"
    using spawned(4) by simp
  have bad: "GOOS example_host \<noteq> ''plan9'' \<and> (''X'', [CHR 0x00]) \<in> set ?bad
      \<and> (CHR 0x00 \<in> set ''X'' \<or> CHR 0x00 \<in> set [CHR 0x00])"
    using os(2) by simp
  from c5 [OF h4, where k = "''X''" and v = "[CHR 0x00]",
      THEN conjunct2, THEN conjunct2, THEN conjunct2, THEN conjunct2, THEN conjunct1,
      THEN mp, OF bad]
  have 7: "child_environ example_host ?bcmd = None" .

  have h5: "snd (RunCommandTool_Execute example_windows_host ?winp) = [?wcmd]
          \<and> ?wovs = EnvOverrides ?winp \<and> ''/tmp'' = Cwd ?winp
      \<or> snd (RunScriptTool_Execute example_windows_host ?splain) = [?wcmd]
          \<and> ?wovs = EnvOverrides ?splain \<and> ''/tmp'' = Cwd ?splain"
    using wspawned(1) by simp
  have w1: "?wovs \<noteq> []
      \<and> (GOOS example_windows_host = ''plan9''
          \<or> list_all (\<lambda>e. CHR 0x00 \<notin> set e) (os_Environ example_windows_host @ map env_line ?wovs))"
    using nonul(3) by simp
  from c5 [OF h5,
      THEN conjunct2, THEN conjunct2, THEN conjunct2, THEN conjunct2, THEN conjunct2,
      THEN conjunct1, THEN mp, OF w1]
  have "child_environ example_windows_host ?wcmd
      = Some (addCriticalEnv example_windows_host
                (keep_last (dedup_key (GOOS example_windows_host = ''windows''))
                   (os_Environ example_windows_host @ map env_line ?wovs)))" .
  then have 10: "child_environ example_windows_host ?wcmd
      = Some [''A=1'', ''X=0'', ''API_KEY=abcdef1234'', ''TOKEN=****'', ''home=C:/x'',
              ''SYSTEMROOT='']"
    by (simp add: example_windows_fields example_Environ env_line_def example_keys
        addCriticalEnv_def example_Cut example_EqualFold)

  have h6: "snd (RunCommandTool_Execute example_windows_host ?tmp) = [?wtcmd]
          \<and> [] = EnvOverrides ?tmp \<and> ''/tmp'' = Cwd ?tmp
      \<or> snd (RunScriptTool_Execute example_windows_host ?splain) = [?wtcmd]
          \<and> [] = EnvOverrides ?splain \<and> ''/tmp'' = Cwd ?splain"
    using wspawned(2) by simp
  have w2: "[] = ([] :: (string \<times> string) list)
      \<and> (CmdDir ?wtcmd = [] \<or> GOOS example_windows_host = ''windows''
          \<or> GOOS example_windows_host = ''plan9'')
      \<and> (GOOS example_windows_host = ''plan9''
          \<or> list_all (\<lambda>e. CHR 0x00 \<notin> set e) (os_Environ example_windows_host))"
    using nonul(4) by (simp add: example_windows_fields)
  from c5 [OF h6,
      THEN conjunct2, THEN conjunct2, THEN conjunct2, THEN conjunct2, THEN conjunct2,
      THEN conjunct2, THEN conjunct1, THEN mp, OF w2]
  have "child_environ example_windows_host ?wtcmd
      = Some (addCriticalEnv example_windows_host
                (keep_last (dedup_key (GOOS example_windows_host = ''windows''))
                   (os_Environ example_windows_host)))" .
  then have 11: "child_environ example_windows_host ?wtcmd
      = Some [''HOME=/root'', ''A=1'', ''X=0'', ''API_KEY=abcdef1234'', ''TOKEN=****'',
              ''SYSTEMROOT='']"
    by (simp add: example_windows_fields example_Environ example_keys
        addCriticalEnv_def example_Cut example_EqualFold)

  have h7: "snd (RunCommandTool_Execute example_host ?inp) = [?stcmd] \<and> [] = EnvOverrides ?inp
          \<and> ''/tmp'' = Cwd ?inp
      \<or> snd (RunScriptTool_Execute example_host ?stmp) = [?stcmd] \<and> [] = EnvOverrides ?stmp
          \<and> ''/tmp'' = Cwd ?stmp"
    using spawned(5) by simp
  have w3: "[] = ([] :: (string \<times> string) list) \<and> CmdDir ?stcmd \<noteq> []
      \<and> GOOS example_host \<noteq> ''windows'' \<and> GOOS example_host \<noteq> ''plan9''
      \<and> AbsPath example_host (CmdDir ?stcmd) = Some ''/tmp''
      \<and> list_all (\<lambda>e. CHR 0x00 \<notin> set e) (os_Environ example_host @ [''PWD='' @ ''/tmp''])"
    using nonul(2) os by (simp add: dirs(4) example_host_fields)
  from c5 [OF h7, where pwd = "''/tmp''",
      THEN conjunct2, THEN conjunct2, THEN conjunct2, THEN conjunct2, THEN conjunct2,
      THEN conjunct2, THEN conjunct2, THEN conjunct1, THEN mp, OF w3]
  have "child_environ example_host ?stcmd
      = Some (keep_last (dedup_key False) (os_Environ example_host @ [''PWD='' @ ''/tmp'']))" .
  then have 12: "child_environ example_host ?stcmd
      = Some [''HOME=/root'', ''A=1'', ''X=0'', ''API_KEY=abcdef1234'', ''TOKEN=****'', ''PWD=/tmp'']"
    by (simp add: example_Environ example_keys)
  from 1 2 3 4 5 6 7 set 9 10 11 12 show ?thesis by (intro conjI)
qed

theorem child_environment_not_caller_plus_overrides:
  "child_environ example_host (hd (snd (RunCommandTool_Execute example_host
      \<lparr>Cwd = ''/tmp'', EnvOverrides = [], TimeoutMs = 0, Cmd = ''echo'', Args = [''hi'']\<rparr>)))
     = Some (os_Environ example_host @ [''PWD=/tmp''])
   \<and> getenv (os_Environ example_host @ [''PWD=/tmp'']) ''PWD'' = Some ''/tmp''
   \<and> os_LookupEnv example_host ''PWD'' = None
   \<and> child_environ example_host (hd (snd (RunCommandTool_Execute example_host
      \<lparr>Cwd = [], EnvOverrides = [(''A=B'', ''c'')], TimeoutMs = 0,
       Cmd = ''echo'', Args = [''hi'']\<rparr>)))
     = Some [''HOME=/root'', ''X=0'', ''API_KEY=abcdef1234'', ''TOKEN=****'', ''A=B=c'']
   \<and> getenv [''HOME=/root'', ''X=0'', ''API_KEY=abcdef1234'', ''TOKEN=****'', ''A=B=c''] ''A''
     = Some ''B=c''
   \<and> os_LookupEnv example_host ''A'' = Some ''1''
   \<and> map_of [(''A=B'', ''c'')] ''A'' = None"
proof -
  have os: "GOOS example_host \<noteq> ''windows''" "GOOS example_host \<noteq> ''plan9''"
    by (simp_all add: example_host_fields)
  let ?tcmd = "\<lparr>CmdName = ''echo'', CmdArgs = [''hi''], CmdDir = ''/tmp'',
                 CmdEnv = command_env example_host [], CmdTimeout = 30000000000\<rparr>"
  have "child_environ example_host ?tcmd
      = Some (filter (\<lambda>e. entry_name e \<notin> fst ` set [(''PWD'', ''/tmp'')]) (os_Environ example_host)
              @ map env_line [(''PWD'', ''/tmp'')])"
    by (rule child_environ_posix(2) [OF os example_well_formed])
      (simp_all add: command_env_def example_host_fields)
  then have 1: "child_environ example_host ?tcmd = Some (os_Environ example_host @ [''PWD=/tmp''])"
    by (simp add: example_Environ entry_name_def env_line_def)
  have 2: "getenv (os_Environ example_host @ [''PWD=/tmp'']) ''PWD'' = Some ''/tmp''"
    by (simp add: example_Environ entry_name_def entry_value_def)
  have 3: "os_LookupEnv example_host ''PWD'' = None" "os_LookupEnv example_host ''A'' = Some ''1''"
    by (simp_all add: os_LookupEnv_def example_host_fields)
  let ?cmd = "\<lparr>CmdName = ''echo'', CmdArgs = [''hi''], CmdDir = [],
                CmdEnv = command_env example_host [(''A=B'', ''c'')], CmdTimeout = 30000000000\<rparr>"
  have 4: "child_environ example_host ?cmd
      = Some [''HOME=/root'', ''X=0'', ''API_KEY=abcdef1234'', ''TOKEN=****'', ''A=B=c'']"
    by (simp add: child_environ_def Cmd_environ_def Cmd_entries_def command_env_def dedupEnv_def dedupEnvCase_def
        addCriticalEnv_def example_Environ env_line_def dedup_key_def example_host_fields)
  have 5: "getenv [''HOME=/root'', ''X=0'', ''API_KEY=abcdef1234'', ''TOKEN=****'', ''A=B=c''] ''A''
      = Some ''B=c''"
    by (simp add: entry_name_def entry_value_def)
  from 1 2 3 4 5 show ?thesis by (simp add: example_override_runs)
qed

subsection \<open>The lines of a script\<close>









subsection \<open>Resolving the shell\<close>

lemma requested_shell_None:
  "requested_shell h requested = None \<longleftrightarrow>
     (ToLower requested \<in> set [''bash'', ''zsh'', ''sh'', ''fish'']
        \<longrightarrow> LookPath h (ToLower requested) = None)
     \<and> (ToLower requested \<in> set [''pwsh'', ''powershell'']
        \<longrightarrow> LookPath h ''pwsh'' = None \<and> LookPath h ''powershell'' = None)"
  by (auto simp: requested_shell_def look_def Let_def split: option.splits)

lemma requested_shell_posix_name:
  assumes "ToLower requested \<in> set [''bash'', ''zsh'', ''sh'', ''fish'']"
    and "LookPath h (ToLower requested) = Some p"
  shows "requested_shell h requested = Some (p, ''-c'')"
  using assms by (auto simp: requested_shell_def look_def Let_def)

lemma requested_shell_powershell:
  assumes "ToLower requested \<in> set [''pwsh'', ''powershell'']"
  shows "LookPath h ''pwsh'' = Some p \<Longrightarrow> requested_shell h requested = Some (p, ''-Command'')"
    and "LookPath h ''pwsh'' = None \<Longrightarrow> LookPath h ''powershell'' = Some p
           \<Longrightarrow> requested_shell h requested = Some (p, ''-Command'')"
  using assms by (auto simp: requested_shell_def look_def Let_def)

lemma default_shell_flag: "snd (default_shell h) \<in> set [''-c'', ''-Command'', ''/C'']"
  by (auto simp: default_shell_def look_def split: option.splits)

lemma requested_shell_flag:
  "requested_shell h requested = Some found \<Longrightarrow> snd found \<in> set [''-c'', ''-Command'']"
  by (auto simp: requested_shell_def look_def Let_def split: option.splits if_splits)

text \<open>
  C8. \<^verbatim>\<open>resolveShell\<close> is a total function of the requested name, the search path and the
  platform, so it always returns a path with one flag, and the same one for the same
  installed interpreters on the same platform. A requested \<^verbatim>\<open>bash\<close>, \<^verbatim>\<open>zsh\<close>, \<^verbatim>\<open>sh\<close> or
  \<^verbatim>\<open>fish\<close> (in any letter case) that is installed is returned with \<^verbatim>\<open>-c\<close>; a requested
  PowerShell is \<^verbatim>\<open>pwsh\<close> if installed, else \<^verbatim>\<open>powershell\<close> if installed, with \<^verbatim>\<open>-Command\<close>.
  When no name is requested, the name is unknown or the requested interpreter is not
  installed, the result is, on a platform other than Windows, the first installed one of
  \<^verbatim>\<open>bash\<close>, \<^verbatim>\<open>zsh\<close>, \<^verbatim>\<open>sh\<close> with \<^verbatim>\<open>-c\<close> and \<^verbatim>\<open>/bin/sh\<close> with \<^verbatim>\<open>-c\<close> when none is; on
  Windows it is \<^verbatim>\<open>pwsh\<close>, else \<^verbatim>\<open>powershell\<close>, with \<^verbatim>\<open>-Command\<close>, and \<^verbatim>\<open>cmd\<close> with \<^verbatim>\<open>/C\<close>
  when neither is installed.
\<close>

theorem resolveShell_total_with_fallback:
  "snd (resolveShell h requested) \<in> set [''-c'', ''-Command'', ''/C'']
   \<and> (LookPath h = LookPath h' \<and> GOOS h = GOOS h'
        \<longrightarrow> resolveShell h requested = resolveShell h' requested)
   \<and> (ToLower requested \<in> set [''bash'', ''zsh'', ''sh'', ''fish'']
        \<and> LookPath h (ToLower requested) = Some p
        \<longrightarrow> resolveShell h requested = (p, ''-c''))
   \<and> (ToLower requested \<in> set [''pwsh'', ''powershell''] \<and> LookPath h ''pwsh'' = Some p
        \<longrightarrow> resolveShell h requested = (p, ''-Command''))
   \<and> (ToLower requested \<in> set [''pwsh'', ''powershell''] \<and> LookPath h ''pwsh'' = None
        \<and> LookPath h ''powershell'' = Some p
        \<longrightarrow> resolveShell h requested = (p, ''-Command''))
   \<and> (requested_shell h requested = None \<longleftrightarrow>
        (ToLower requested \<in> set [''bash'', ''zsh'', ''sh'', ''fish'']
           \<longrightarrow> LookPath h (ToLower requested) = None)
        \<and> (ToLower requested \<in> set [''pwsh'', ''powershell'']
           \<longrightarrow> LookPath h ''pwsh'' = None \<and> LookPath h ''powershell'' = None))
   \<and> requested_shell h [] = None
   \<and> (requested_shell h requested = None \<and> GOOS h \<noteq> ''windows''
        \<longrightarrow> resolveShell h requested
            = (case LookPath h ''bash'' of
                 Some p \<Rightarrow> (p, ''-c'')
               | None \<Rightarrow>
                   (case LookPath h ''zsh'' of
                      Some p \<Rightarrow> (p, ''-c'')
                    | None \<Rightarrow>
                        (case LookPath h ''sh'' of
                           Some p \<Rightarrow> (p, ''-c'')
                         | None \<Rightarrow> (''/bin/sh'', ''-c'')))))
   \<and> (requested_shell h requested = None \<and> GOOS h = ''windows''
        \<longrightarrow> resolveShell h requested
            = (case LookPath h ''pwsh'' of
                 Some p \<Rightarrow> (p, ''-Command'')
               | None \<Rightarrow>
                   (case LookPath h ''powershell'' of
                      Some p \<Rightarrow> (p, ''-Command'')
                    | None \<Rightarrow> (''cmd'', ''/C''))))"
proof -
  have 1: "snd (resolveShell h requested) \<in> set [''-c'', ''-Command'', ''/C'']"
  proof (cases "requested_shell h requested")
    case None
    with default_shell_flag [of h] show ?thesis by (simp add: resolveShell_def)
  next
    case (Some found)
    with requested_shell_flag [OF Some] show ?thesis by (auto simp: resolveShell_def)
  qed
  have 2: "resolveShell h requested = resolveShell h' requested"
    if "LookPath h = LookPath h'" "GOOS h = GOOS h'"
  proof -
    from that(1) have l: "look h = look h'" by (simp add: look_def fun_eq_iff)
    have "first_shell h names = first_shell h' names" for names
      by (induction names) (simp_all add: that(1) cong: option.case_cong)
    then have f: "first_shell h = first_shell h'" by (simp add: fun_eq_iff)
    show ?thesis
      unfolding resolveShell_def requested_shell_def default_shell_def l f that(2) ..
  qed
  have 3: "resolveShell h requested = (p, ''-c'')"
    if "ToLower requested \<in> set [''bash'', ''zsh'', ''sh'', ''fish'']"
      "LookPath h (ToLower requested) = Some p"
    using requested_shell_posix_name [OF that] by (simp add: resolveShell_def)
  have 4: "resolveShell h requested = (p, ''-Command'')"
    if "ToLower requested \<in> set [''pwsh'', ''powershell'']" "LookPath h ''pwsh'' = Some p"
    using requested_shell_powershell(1) [OF that] by (simp add: resolveShell_def)
  have 5: "resolveShell h requested = (p, ''-Command'')"
    if "ToLower requested \<in> set [''pwsh'', ''powershell'']" "LookPath h ''pwsh'' = None"
      "LookPath h ''powershell'' = Some p"
    using requested_shell_powershell(2) [OF that] by (simp add: resolveShell_def)
  note 6 = requested_shell_None [of h requested]
  have 7: "requested_shell h [] = None"
    by (simp add: requested_shell_def ToLower_def)
  have 8: "resolveShell h requested
      = (case LookPath h ''bash'' of
           Some p \<Rightarrow> (p, ''-c'')
         | None \<Rightarrow>
             (case LookPath h ''zsh'' of
                Some p \<Rightarrow> (p, ''-c'')
              | None \<Rightarrow>
                  (case LookPath h ''sh'' of
                     Some p \<Rightarrow> (p, ''-c'')
                   | None \<Rightarrow> (''/bin/sh'', ''-c''))))"
    if "requested_shell h requested = None" "GOOS h \<noteq> ''windows''"
    using that by (simp add: resolveShell_def default_shell_def split: option.splits)
  have 9: "resolveShell h requested
      = (case LookPath h ''pwsh'' of
           Some p \<Rightarrow> (p, ''-Command'')
         | None \<Rightarrow>
             (case LookPath h ''powershell'' of
                Some p \<Rightarrow> (p, ''-Command'')
              | None \<Rightarrow> (''cmd'', ''/C'')))"
    if "requested_shell h requested = None" "GOOS h = ''windows''"
    using that by (simp add: resolveShell_def default_shell_def look_def split: option.splits)
  show ?thesis
  proof (intro conjI impI; (elim conjE)?)
    show "requested_shell h requested = None \<longleftrightarrow>
        (ToLower requested \<in> set [''bash'', ''zsh'', ''sh'', ''fish'']
           \<longrightarrow> LookPath h (ToLower requested) = None)
        \<and> (ToLower requested \<in> set [''pwsh'', ''powershell'']
           \<longrightarrow> LookPath h ''pwsh'' = None \<and> LookPath h ''powershell'' = None)"
      by (rule 6)
  qed (fact 1 7 | rule 2 3 4 5 8 9; assumption)+
qed

theorem resolveShell_total_with_fallback_witness:
  "resolveShell example_host [] = (''/usr/bin/zsh'', ''-c'')
   \<and> resolveShell example_host ''Bash'' = (''/usr/bin/zsh'', ''-c'')
   \<and> resolveShell example_host ''SH'' = (''/bin/sh'', ''-c'')
   \<and> resolveShell (example_host\<lparr>LookPath := (\<lambda>name. None)\<rparr>) ''fish'' = (''/bin/sh'', ''-c'')
   \<and> resolveShell (example_host\<lparr>LookPath := (\<lambda>name. None), GOOS := ''windows''\<rparr>) ''tcsh''
       = (''cmd'', ''/C'')
   \<and> resolveShell
         (example_host\<lparr>LookPath := (\<lambda>name. if name = ''powershell'' then Some ''/opt/ps'' else None)\<rparr>)
         ''pwsh'' = (''/opt/ps'', ''-Command'')
   \<and> snd (resolveShell example_host ''zsh'') \<in> set [''-c'', ''-Command'', ''/C'']
   \<and> resolveShell (example_host\<lparr>EnvTable := []\<rparr>) ''zsh'' = resolveShell example_host ''zsh''"
proof -
  note c8 = resolveShell_total_with_fallback
  let ?bare = "example_host\<lparr>LookPath := (\<lambda>name. None)\<rparr>"
  let ?win = "example_host\<lparr>LookPath := (\<lambda>name. None), GOOS := ''windows''\<rparr>"
  let ?ps = "example_host\<lparr>LookPath := (\<lambda>name. if name = ''powershell'' then Some ''/opt/ps'' else None)\<rparr>"
  have lower: "ToLower [] = []" "ToLower ''Bash'' = ''bash''" "ToLower ''SH'' = ''sh''"
    "ToLower ''fish'' = ''fish''" "ToLower ''tcsh'' = ''tcsh''" "ToLower ''pwsh'' = ''pwsh''"
    by (simp_all add: ToLower_def upper_chars_def lower_chars_def)
  have path: "LookPath example_host ''bash'' = None"
    "LookPath example_host ''zsh'' = Some ''/usr/bin/zsh''"
    "LookPath example_host ''sh'' = Some ''/bin/sh''"
    "GOOS example_host \<noteq> ''windows''" "GOOS ?bare \<noteq> ''windows''" "GOOS ?win = ''windows''"
    "LookPath ?bare = (\<lambda>name. None)" "LookPath ?win = (\<lambda>name. None)"
    "LookPath ?ps ''pwsh'' = None" "LookPath ?ps ''powershell'' = Some ''/opt/ps''"
    by (simp_all add: example_host_def)
  have none: "requested_shell example_host [] = None"
    "requested_shell example_host ''Bash'' = None"
    "requested_shell ?bare ''fish'' = None"
    "requested_shell ?win ''tcsh'' = None"
    using c8 [where h = example_host and requested = "[]"]
      c8 [where h = example_host and requested = "''Bash''"]
      c8 [where h = ?bare and requested = "''fish''"]
      c8 [where h = ?win and requested = "''tcsh''"]
    by (simp_all add: lower path)
  have 1: "resolveShell example_host [] = (''/usr/bin/zsh'', ''-c'')"
    using c8 [where h = example_host and requested = "[]"] none(1) path by simp
  have 2: "resolveShell example_host ''Bash'' = (''/usr/bin/zsh'', ''-c'')"
    using c8 [where h = example_host and requested = "''Bash''"] none(2) path by simp
  have 3: "resolveShell example_host ''SH'' = (''/bin/sh'', ''-c'')"
    using c8 [where h = example_host and requested = "''SH''" and p = "''/bin/sh''"]
    by (simp add: lower path)
  have 4: "resolveShell ?bare ''fish'' = (''/bin/sh'', ''-c'')"
    using c8 [where h = ?bare and requested = "''fish''"] none(3) path by simp
  have 5: "resolveShell ?win ''tcsh'' = (''cmd'', ''/C'')"
    using c8 [where h = ?win and requested = "''tcsh''"] none(4) path by simp
  have 6: "resolveShell ?ps ''pwsh'' = (''/opt/ps'', ''-Command'')"
    using c8 [where h = ?ps and requested = "''pwsh''" and p = "''/opt/ps''"]
    by (simp add: lower path)
  have 7: "snd (resolveShell example_host ''zsh'') \<in> set [''-c'', ''-Command'', ''/C'']"
    using c8 [where h = example_host and requested = "''zsh''"] by blast
  have 8: "resolveShell (example_host\<lparr>EnvTable := []\<rparr>) ''zsh'' = resolveShell example_host ''zsh''"
    using c8 [where h = "example_host\<lparr>EnvTable := []\<rparr>" and h' = example_host
        and requested = "''zsh''"]
    by simp
  from 1 2 3 4 5 6 7 8 show ?thesis by blast
qed

subsection \<open>Reading the environment\<close>





lemma os_Setenv_sets:
  assumes "os_Setenv h key val = Some h'"
  shows "os_LookupEnv h' key = Some val"
    and "key' \<noteq> key \<Longrightarrow> os_LookupEnv h' key' = os_LookupEnv h key'"
    and "\<forall>k \<in> set (map fst (EnvTable h)). CHR ''='' \<notin> set k
           \<Longrightarrow> \<forall>k \<in> set (map fst (EnvTable h')). CHR ''='' \<notin> set k"
proof -
  from assms have h': "h' = h\<lparr>EnvTable := AList.update key val (EnvTable h)\<rparr>"
    and key: "CHR ''='' \<notin> set key"
    by (simp_all add: os_Setenv_def split: if_splits)
  from h' show "os_LookupEnv h' key = Some val"
    by (simp add: os_LookupEnv_def update_conv')
  from h' show "os_LookupEnv h' key' = os_LookupEnv h key'" if "key' \<noteq> key"
    using that by (simp add: os_LookupEnv_def update_conv')
  from h' have "set (map fst (EnvTable h')) = insert key (set (map fst (EnvTable h)))"
    by (simp add: dom_update)
  with key show "\<forall>k \<in> set (map fst (EnvTable h')). CHR ''='' \<notin> set k"
    if "\<forall>k \<in> set (map fst (EnvTable h)). CHR ''='' \<notin> set k"
    using that by simp
qed

lemma SetEnv_sets:
  assumes "SetEnvTool_Execute h inp = (Inr out, h')"
  shows "os_Setenv h (SetKey inp) (SetValue inp) = Some h'"
    and "Warned out = isSensitiveEnvKey (SetKey inp)" and "Success out"
  using assms by (auto simp: SetEnvTool_Execute_def split: if_splits option.splits)


lemma example_lookup:
  "os_LookupEnv example_host ''X'' = Some ''0''" "os_LookupEnv example_host ''NOPE'' = None"
  "os_LookupEnv example_host ''HOME'' = Some ''/root''"
  "os_LookupEnv example_host ''TOKEN'' = Some ''****''"
  "os_LookupEnv example_host ''API_KEY'' = Some ''abcdef1234''"
  by (simp_all add: os_LookupEnv_def example_host_fields)

lemma example_sensitive:
  "isSensitiveEnvKey ''TOKEN''" "isSensitiveEnvKey ''API_KEY''" "\<not> isSensitiveEnvKey ''X''"
  "\<not> isSensitiveEnvKey ''HOME''" "\<not> isSensitiveEnvKey ''A''"
  by (simp_all add: isSensitiveEnvKey_def ToUpper_def lower_chars_def upper_chars_def
      sensitiveEnvKeys_def sensitivePatterns_def)


subsection \<open>Redaction\<close>

lemma redactValue_short: "length val \<le> 4 \<Longrightarrow> redactValue val = ''****''"
  by (simp add: redactValue_def)

lemma redactValue_long:
  "4 < length val \<Longrightarrow>
     redactValue val = take 2 val @ replicate (length val - 4) (CHR ''*'') @ drop (length val - 2) val"
  by (simp add: redactValue_def)

lemma length_redactValue_long: "4 < length val \<Longrightarrow> length (redactValue val) = length val"
  by (simp add: redactValue_long)

text \<open>
  C10. The masked rendering of a value longer than 4 bytes has the length of the value:
  its first two bytes, then one mask character for each of the \<open>length - 4\<close> bytes in
  between, then its last two bytes. Every value of at most 4 bytes is rendered as the same
  four mask characters, whatever it contains.
\<close>

theorem redactValue_leaks_length:
  "(4 < length val \<longrightarrow>
      length (redactValue val) = length val
      \<and> redactValue val = take 2 val @ replicate (length val - 4) (CHR ''*'') @ drop (length val - 2) val
      \<and> length (take 2 val) = 2
      \<and> length (drop (length val - 2) val) = 2)
   \<and> (length val \<le> 4 \<longrightarrow> redactValue val = ''****'' \<and> length (redactValue val) = 4)
   \<and> (length val \<le> 4 \<and> length val' \<le> 4 \<longrightarrow> redactValue val = redactValue val')"
proof -
  have "length val \<le> 4 \<Longrightarrow> length (redactValue val) = 4"
    by (simp add: redactValue_short)
  then show ?thesis
    by (auto simp: redactValue_short redactValue_long length_redactValue_long)
qed

theorem redactValue_leaks_length_witness:
  "length (redactValue ''abcdef1234'') = length ''abcdef1234''
   \<and> redactValue ''abcdef1234'' = ''ab******34''
   \<and> redactValue ''abc'' = ''****''
   \<and> redactValue ''abc'' = redactValue ''wxyz''"
proof -
  have long: "4 < length ''abcdef1234''" by simp
  have short: "length ''abc'' \<le> 4 \<and> length ''wxyz'' \<le> 4" by simp
  from redactValue_leaks_length [of "''abcdef1234''" "''abc''"] long
  have a: "length (redactValue ''abcdef1234'') = length ''abcdef1234''"
    and b: "redactValue ''abcdef1234'' =
       take 2 ''abcdef1234'' @ replicate (length ''abcdef1234'' - 4) (CHR ''*'')
         @ drop (length ''abcdef1234'' - 2) ''abcdef1234''"
    by blast+
  have b': "redactValue ''abcdef1234'' = ''ab******34''"
    unfolding b by (simp add: numeral_eq_Suc)
  from redactValue_leaks_length [of "''abc''" "''wxyz''"] short
  have c: "redactValue ''abc'' = ''****''" and d: "redactValue ''abc'' = redactValue ''wxyz''"
    by blast+
  show ?thesis using a b' c d by blast
qed


lemma redactValue_nth:
  assumes "4 < length val" and "i < length val"
  shows "redactValue val ! i = (if i < 2 \<or> length val - 2 \<le> i then val ! i else CHR ''*'')"
proof -
  let ?mid = "replicate (length val - 4) (CHR ''*'')" and ?last = "drop (length val - 2) val"
  have eq: "redactValue val = take 2 val @ ?mid @ ?last"
    using assms(1) by (rule redactValue_long)
  from assms(1) have len: "length (take 2 val) = 2" "length ?mid = length val - 4" by simp_all
  consider "i < 2" | "2 \<le> i" "i < length val - 2" | "length val - 2 \<le> i" by linarith
  then show ?thesis
  proof cases
    case 1
    with assms have "redactValue val ! i = take 2 val ! i" by (simp add: eq nth_append)
    with 1 show ?thesis by simp
  next
    case 2
    then have a: "\<not> i < 2" "i - 2 < length val - 4" by arith+
    with assms have "redactValue val ! i = ?mid ! (i - 2)" by (simp add: eq nth_append)
    with a 2 show ?thesis by simp
  next
    case 3
    with assms have a: "\<not> i < 2" "\<not> i - 2 < length val - 4"
      "i - 2 - (length val - 4) = i - (length val - 2)"
      "length val - 2 + (i - (length val - 2)) = i" "length val - 2 \<le> length val"
      by arith+
    with assms have "redactValue val ! i = ?last ! (i - (length val - 2))"
      by (simp add: eq nth_append)
    also from a have "\<dots> = val ! i" by simp
    finally show ?thesis using 3 by simp
  qed
qed

lemma redactValue_unchanged:
  "redactValue val = val \<longleftrightarrow>
     val = ''****'' \<or> (4 < length val \<and> (\<forall>i. 2 \<le> i \<and> i < length val - 2 \<longrightarrow> val ! i = CHR ''*''))"
proof (cases "length val \<le> 4")
  case True
  then show ?thesis by (auto simp: redactValue_short)
next
  case False
  then have long: "4 < length val" by simp
  have "redactValue val = val \<longleftrightarrow> (\<forall>i < length val. redactValue val ! i = val ! i)"
    by (simp add: list_eq_iff_nth_eq length_redactValue_long [OF long])
  also have "\<dots> \<longleftrightarrow> (\<forall>i. 2 \<le> i \<and> i < length val - 2 \<longrightarrow> val ! i = CHR ''*'')"
  proof
    assume a: "\<forall>i < length val. redactValue val ! i = val ! i"
    show "\<forall>i. 2 \<le> i \<and> i < length val - 2 \<longrightarrow> val ! i = CHR ''*''"
    proof (intro allI impI)
      fix i assume i: "2 \<le> i \<and> i < length val - 2"
      then have less: "i < length val" and mid: "\<not> (i < 2 \<or> length val - 2 \<le> i)" by arith+
      from a less have "redactValue val ! i = val ! i" by simp
      with redactValue_nth [OF long less] mid show "val ! i = CHR ''*''" by simp
    qed
  next
    assume a: "\<forall>i. 2 \<le> i \<and> i < length val - 2 \<longrightarrow> val ! i = CHR ''*''"
    show "\<forall>i < length val. redactValue val ! i = val ! i"
    proof (intro allI impI)
      fix i assume "i < length val"
      from redactValue_nth [OF long this] a show "redactValue val ! i = val ! i"
        by (cases "i < 2 \<or> length val - 2 \<le> i") (simp_all add: not_le not_less)
    qed
  qed
  finally show ?thesis using long by auto
qed

text \<open>
  C4, as the code has it. For a variable that is set and whose key is classified
  sensitive, \<^verbatim>\<open>get_env\<close> with \<^verbatim>\<open>include_sensitive=false\<close> returns the masked value with
  \<^verbatim>\<open>redacted\<close> set, and with \<^verbatim>\<open>include_sensitive=true\<close> the exact value with \<^verbatim>\<open>redacted\<close>
  unset; a successful \<^verbatim>\<open>set_env\<close> of the key sets the variable to the value written. The
  mask of a value longer than 4 bytes keeps its first two and last two bytes, has the
  value's length and holds mask characters everywhere in between; the mask of a value of
  at most 4 bytes is four mask characters. The mask differs from the value except when
  the value is itself four mask characters, or is longer than 4 bytes and already holds
  mask characters everywhere between its first two and last two bytes.
\<close>

theorem redaction_round_trip:
  "(isSensitiveEnvKey key \<and> os_LookupEnv h key = Some val \<longrightarrow>
      Variables (GetEnvTool_Execute h \<lparr>Keys = [key], IncludeSensitive = False\<rparr>)
        = [\<lparr>Key = key, Value = redactValue val, Redacted = True\<rparr>]
      \<and> Variables (GetEnvTool_Execute h \<lparr>Keys = [key], IncludeSensitive = True\<rparr>)
        = [\<lparr>Key = key, Value = val, Redacted = False\<rparr>])
   \<and> (SetEnvTool_Execute h0 \<lparr>SetKey = key, SetValue = val\<rparr> = (Inr out, h)
      \<longrightarrow> os_LookupEnv h key = Some val \<and> Warned out = isSensitiveEnvKey key)
   \<and> (4 < length val \<longrightarrow>
        length (redactValue val) = length val
      \<and> take 2 (redactValue val) = take 2 val
      \<and> drop (length val - 2) (redactValue val) = drop (length val - 2) val
      \<and> (\<forall>i. 2 \<le> i \<and> i < length val - 2 \<longrightarrow> redactValue val ! i = CHR ''*''))
   \<and> (length val \<le> 4 \<longrightarrow> redactValue val = ''****'')
   \<and> (redactValue val = val \<longleftrightarrow>
        val = ''****''
        \<or> (4 < length val \<and> (\<forall>i. 2 \<le> i \<and> i < length val - 2 \<longrightarrow> val ! i = CHR ''*'')))"
proof -
  have 1: "Variables (GetEnvTool_Execute h \<lparr>Keys = [key], IncludeSensitive = False\<rparr>)
        = [\<lparr>Key = key, Value = redactValue val, Redacted = True\<rparr>]
      \<and> Variables (GetEnvTool_Execute h \<lparr>Keys = [key], IncludeSensitive = True\<rparr>)
        = [\<lparr>Key = key, Value = val, Redacted = False\<rparr>]"
    if "isSensitiveEnvKey key" "os_LookupEnv h key = Some val"
    using that by (simp add: GetEnvTool_Execute_def env_entry_def)
  have 2: "os_LookupEnv h key = Some val \<and> Warned out = isSensitiveEnvKey key"
    if "SetEnvTool_Execute h0 \<lparr>SetKey = key, SetValue = val\<rparr> = (Inr out, h)"
    using SetEnv_sets(1,2) [OF that] os_Setenv_sets(1) [of h0 key val h] by simp
  have 3: "length (redactValue val) = length val
      \<and> take 2 (redactValue val) = take 2 val
      \<and> drop (length val - 2) (redactValue val) = drop (length val - 2) val
      \<and> (\<forall>i. 2 \<le> i \<and> i < length val - 2 \<longrightarrow> redactValue val ! i = CHR ''*'')"
    if long: "4 < length val"
  proof -
    have "redactValue val ! i = CHR ''*''" if "2 \<le> i \<and> i < length val - 2" for i
    proof -
      from that have less: "i < length val" and mid: "\<not> (i < 2 \<or> length val - 2 \<le> i)"
        by arith+
      with redactValue_nth [OF long less] show ?thesis by simp
    qed
    moreover from long have "take 2 (redactValue val) = take 2 val"
      by (simp add: redactValue_long)
    moreover from long have "drop (length val - 2) (redactValue val) = drop (length val - 2) val"
      by (simp add: redactValue_long)
    ultimately show ?thesis using length_redactValue_long [OF long] by blast
  qed
  have 4: "redactValue val = ''****''" if "length val \<le> 4"
    using that by (rule redactValue_short)
  note 5 = redactValue_unchanged [of val]
  show ?thesis
  proof (intro conjI impI; (elim conjE)?)
    show "redactValue val = val \<longleftrightarrow>
        val = ''****''
        \<or> (4 < length val \<and> (\<forall>i. 2 \<le> i \<and> i < length val - 2 \<longrightarrow> val ! i = CHR ''*''))"
      by (rule 5)
  qed (use 1 2 3 4 in blast)+
qed

theorem redaction_round_trip_witness:
  "Variables (GetEnvTool_Execute example_host \<lparr>Keys = [''API_KEY''], IncludeSensitive = False\<rparr>)
     = [\<lparr>Key = ''API_KEY'', Value = ''ab******34'', Redacted = True\<rparr>]
   \<and> Variables (GetEnvTool_Execute example_host \<lparr>Keys = [''API_KEY''], IncludeSensitive = True\<rparr>)
     = [\<lparr>Key = ''API_KEY'', Value = ''abcdef1234'', Redacted = False\<rparr>]
   \<and> redactValue ''abcdef1234'' \<noteq> ''abcdef1234''
   \<and> redactValue ''abc'' = ''****''
   \<and> fst (SetEnvTool_Execute example_host \<lparr>SetKey = ''API_KEY'', SetValue = ''s3cr3t''\<rparr>)
       = Inr \<lparr>Success = True, Warned = True\<rparr>
   \<and> os_LookupEnv (snd (SetEnvTool_Execute example_host
         \<lparr>SetKey = ''API_KEY'', SetValue = ''s3cr3t''\<rparr>)) ''API_KEY'' = Some ''s3cr3t''"
proof -
  note c4 = redaction_round_trip
  let ?val = "''abcdef1234''"
  have hyp: "isSensitiveEnvKey ''API_KEY'' \<and> os_LookupEnv example_host ''API_KEY'' = Some ?val"
    by (simp add: example_sensitive example_lookup)
  have mask: "redactValue ?val = ''ab******34''"
    by (simp add: redactValue_def numeral_eq_Suc)
  from c4 [where key = "''API_KEY''" and h = example_host and val = ?val] hyp
  have 1: "Variables (GetEnvTool_Execute example_host \<lparr>Keys = [''API_KEY''], IncludeSensitive = False\<rparr>)
      = [\<lparr>Key = ''API_KEY'', Value = redactValue ?val, Redacted = True\<rparr>]"
    and 2: "Variables (GetEnvTool_Execute example_host \<lparr>Keys = [''API_KEY''], IncludeSensitive = True\<rparr>)
      = [\<lparr>Key = ''API_KEY'', Value = ?val, Redacted = False\<rparr>]"
    by blast+
  have "?val ! 2 \<noteq> CHR ''*''" "2 \<le> (2::nat) \<and> 2 < length ?val - 2" by simp_all
  with c4 [where val = ?val] have 3: "redactValue ?val \<noteq> ?val" by blast
  have "length ''abc'' \<le> 4" by simp
  with c4 [where val = "''abc''"] have 4: "redactValue ''abc'' = ''****''" by blast
  let ?set = "SetEnvTool_Execute example_host \<lparr>SetKey = ''API_KEY'', SetValue = ''s3cr3t''\<rparr>"
  have 5: "fst ?set = Inr \<lparr>Success = True, Warned = True\<rparr>"
    by (simp add: SetEnvTool_Execute_def example_sensitive os_Setenv_def)
  then have "?set = (Inr \<lparr>Success = True, Warned = True\<rparr>, snd ?set)"
    by (metis prod.collapse)
  with c4 [where ?h0.0 = example_host and key = "''API_KEY''" and val = "''s3cr3t''"
      and out = "\<lparr>Success = True, Warned = True\<rparr>" and h = "snd ?set"]
  have 6: "os_LookupEnv (snd ?set) ''API_KEY'' = Some ''s3cr3t''" by blast
  from 1 2 3 4 5 6 show ?thesis by (simp add: mask)
qed

theorem masked_value_equal_to_original:
  "isSensitiveEnvKey ''TOKEN''
   \<and> os_LookupEnv example_host ''TOKEN'' = Some ''****''
   \<and> Variables (GetEnvTool_Execute example_host \<lparr>Keys = [''TOKEN''], IncludeSensitive = False\<rparr>)
       = [\<lparr>Key = ''TOKEN'', Value = ''****'', Redacted = True\<rparr>]
   \<and> redactValue ''ab***yz'' = ''ab***yz''"
  by (simp add: example_sensitive example_lookup GetEnvTool_Execute_def env_entry_def
      redactValue_def numeral_eq_Suc)

end
